theory Spec2Isabelle
  imports Complex_Main "HOL-Library.Sublist"
begin

section \<open>JavaScript values\<close>

text \<open>
  The pipeline handles rows of a delimited file: objects that map column names to strings.
  A column that the row does not have reads as \<^verbatim>\<open>undefined\<close>, here \<open>None\<close>.
  A character of a \<open>string\<close> stands for one code unit below 256.
\<close>

type_synonym raw_record = "string \<rightharpoonup> string"

datatype js_number = NaN | Finite real | PosInfinity | NegInfinity

datatype js_value =
    JUndefined
  | JNull
  | JBoolean bool
  | JNumber js_number
  | JString string
  | JFunction
  | JObject raw_record

text \<open>\<^verbatim>\<open>!v\<close> is \<open>\<not> truthy v\<close>.\<close>

fun truthy :: "js_value \<Rightarrow> bool" where
  "truthy JUndefined = False"
| "truthy JNull = False"
| "truthy (JBoolean b) = b"
| "truthy (JNumber n) = (n \<noteq> NaN \<and> n \<noteq> Finite 0)"
| "truthy (JString s) = (s \<noteq> [])"
| "truthy JFunction = True"
| "truthy (JObject r) = True"

fun typeof :: "js_value \<Rightarrow> string" where
  "typeof JUndefined = ''undefined''"
| "typeof JNull = ''object''"
| "typeof (JBoolean b) = ''boolean''"
| "typeof (JNumber n) = ''number''"
| "typeof (JString s) = ''string''"
| "typeof JFunction = ''function''"
| "typeof (JObject r) = ''object''"

text \<open>
  Reading a property. Only an object made from a row has the columns; on the other
  values that pass the guard of \<open>validateEmployee\<close> a column is \<^verbatim>\<open>undefined\<close>.
\<close>

fun get_prop :: "js_value \<Rightarrow> string \<Rightarrow> string option" where
  "get_prop (JObject r) k = r k"
| "get_prop v k = None"

definition isNaN :: "js_number \<Rightarrow> bool" where
  "isNaN n = (n = NaN)"

text \<open>\<^verbatim>\<open>n < 0\<close> on a number: false on \<^verbatim>\<open>NaN\<close>.\<close>

fun lt_zero :: "js_number \<Rightarrow> bool" where
  "lt_zero NaN = False"
| "lt_zero (Finite r) = (r < 0)"
| "lt_zero PosInfinity = False"
| "lt_zero NegInfinity = True"

section \<open>Strings: trim and the e-mail pattern\<close>

text \<open>
  The white space and line terminators of the language among the code units below 256:
  tab, line feed, vertical tab, form feed, carriage return, space, no-break space.
  \<^verbatim>\<open>\s\<close> in a pattern and \<^verbatim>\<open>trim\<close> use the same set.
\<close>

definition is_space :: "char \<Rightarrow> bool" where
  "is_space c = ((of_char c :: nat) \<in> {9, 10, 11, 12, 13, 32, 160})"

definition trim :: "string \<Rightarrow> string" where
  "trim s = rev (dropWhile is_space (rev (dropWhile is_space s)))"

text \<open>
  A pattern of the shape the validator uses: a sequence of literal characters and of
  character classes repeated once or more, anchored at both ends. \<open>rx_test\<close> tries
  every split, as a backtracking matcher does.
\<close>

datatype rx_item = Lit char | Plus "char \<Rightarrow> bool"

fun rx_test :: "rx_item list \<Rightarrow> string \<Rightarrow> bool" where
  "rx_test [] s = (s = [])"
| "rx_test (Lit c # r) [] = False"
| "rx_test (Lit c # r) (x # xs) = (x = c \<and> rx_test r xs)"
| "rx_test (Plus p # r) [] = False"
| "rx_test (Plus p # r) (x # xs) = (p x \<and> (rx_test r xs \<or> rx_test (Plus p # r) xs))"

text \<open>The class \<^verbatim>\<open>[^\s@]\<close>.\<close>

definition not_space_at :: "char \<Rightarrow> bool" where
  "not_space_at c = (\<not> is_space c \<and> c \<noteq> CHR ''@'')"

text \<open>\<^verbatim>\<open>/^[^\s@]+@[^\s@]+\.[^\s@]+$/\<close>\<close>

definition emailRegex :: "rx_item list" where
  "emailRegex =
     [Plus not_space_at, Lit CHR ''@'', Plus not_space_at, Lit CHR ''.'', Plus not_space_at]"

definition isValidEmail :: "string option \<Rightarrow> bool" where
  "isValidEmail email =
     (case email of
        None \<Rightarrow> False
      | Some s \<Rightarrow> if s = [] then False else rx_test emailRegex s)"

section \<open>The validator\<close>

text \<open>
  \<^verbatim>\<open>Date.parse\<close> and \<^verbatim>\<open>parseFloat\<close> belong to the runtime, not to the
  repository: the validator takes them as parameters.
\<close>

record runtime =
  Date_parse :: "string \<Rightarrow> js_number"
  parseFloat :: "string \<Rightarrow> js_number"

record validation =
  isValid :: bool
  errors :: "string list"

text \<open>\<^verbatim>\<open>!employee.field\<close> on a column: absent or the empty string.\<close>

definition blank :: "string option \<Rightarrow> bool" where
  "blank f = (case f of None \<Rightarrow> True | Some s \<Rightarrow> s = [])"

definition name_errors :: "string option \<Rightarrow> string \<Rightarrow> string list" where
  "name_errors f msg =
     (case f of
        None \<Rightarrow> [msg]
      | Some s \<Rightarrow> if s = [] \<or> trim s = [] then [msg] else [])"

definition email_errors :: "string option \<Rightarrow> string list" where
  "email_errors f =
     (if blank f then [''Email is required'']
      else if \<not> isValidEmail f then [''Email format is invalid'']
      else [])"

definition hire_date_errors :: "runtime \<Rightarrow> string option \<Rightarrow> string list" where
  "hire_date_errors rt f =
     (case f of
        None \<Rightarrow> []
      | Some s \<Rightarrow> if s \<noteq> [] \<and> isNaN (Date_parse rt s) then [''Hire date is invalid''] else [])"

definition salary_errors :: "runtime \<Rightarrow> string option \<Rightarrow> string list" where
  "salary_errors rt f =
     (case f of
        None \<Rightarrow> []
      | Some s \<Rightarrow>
          if s \<noteq> [] \<and> (isNaN (parseFloat rt s) \<or> lt_zero (parseFloat rt s))
          then [''Salary must be a positive number''] else [])"

definition validateEmployee :: "runtime \<Rightarrow> js_value \<Rightarrow> validation" where
  "validateEmployee rt employee =
     (if \<not> truthy employee \<or> typeof employee \<noteq> ''object''
      then \<lparr>isValid = False, errors = [''Invalid employee data format'']\<rparr>
      else
        let errs =
              name_errors (get_prop employee ''first_name'') ''First name is required''
            @ name_errors (get_prop employee ''last_name'') ''Last name is required''
            @ email_errors (get_prop employee ''email'')
            @ hire_date_errors rt (get_prop employee ''hire_date'')
            @ salary_errors rt (get_prop employee ''salary'')
        in \<lparr>isValid = (length errs = 0), errors = errs\<rparr>)"

section \<open>The employee transformer\<close>

text \<open>
  What the transformer pushes for a row: the row, the verdict and the reasons.
\<close>

record validated_record =
  data :: raw_record
  valid :: bool
  record_errors :: "string list"

text \<open>
  The counters \<^verbatim>\<open>stats.processed\<close>, \<^verbatim>\<open>stats.valid\<close>, \<^verbatim>\<open>stats.invalid\<close> and the
  list \<^verbatim>\<open>stats.errors\<close> of the transformer.
\<close>

record transformer_stats =
  processed :: nat
  stats_valid :: nat
  stats_invalid :: nat
  stats_errors :: "(raw_record \<times> string list) list"

definition EmployeeTransformer_new :: transformer_stats where
  "EmployeeTransformer_new =
     \<lparr>processed = 0, stats_valid = 0, stats_invalid = 0, stats_errors = []\<rparr>"

text \<open>
  \<^verbatim>\<open>EmployeeTransformer._transform\<close>: the new counters and what is pushed downstream.
  On a row of strings no step of the validator throws, so the \<^verbatim>\<open>catch\<close> branch has
  no counterpart here.
\<close>

definition employee_transform ::
  "runtime \<Rightarrow> transformer_stats \<Rightarrow> raw_record \<Rightarrow> transformer_stats \<times> validated_record list" where
  "employee_transform rt st chunk =
     (let st1 = st\<lparr>processed := processed st + 1\<rparr>;
          validation = validateEmployee rt (JObject chunk)
      in if isValid validation
         then (st1\<lparr>stats_valid := stats_valid st1 + 1\<rparr>,
               [\<lparr>data = chunk, valid = True, record_errors = []\<rparr>])
         else (st1\<lparr>stats_invalid := stats_invalid st1 + 1,
                    stats_errors := stats_errors st1 @ [(chunk, errors validation)]\<rparr>,
               [\<lparr>data = chunk, valid = False, record_errors = errors validation\<rparr>]))"

text \<open>The transformer fed a sequence of rows, one call per row.\<close>

fun employee_run ::
  "runtime \<Rightarrow> transformer_stats \<Rightarrow> raw_record list \<Rightarrow> transformer_stats \<times> validated_record list" where
  "employee_run rt st [] = (st, [])"
| "employee_run rt st (c # cs) =
     (let (st1, out1) = employee_transform rt st c;
          (st2, out2) = employee_run rt st1 cs
      in (st2, out1 @ out2))"

section \<open>The batch transformer\<close>

text \<open>
  The options of the constructor; \<open>None\<close> is an option left out. The batch size is a
  whole number, as \<^verbatim>\<open>parseInt\<close> gives it.
\<close>

record batch_options =
  opt_batchSize :: "int option"
  opt_validOnly :: "bool option"

record batcher =
  batchSize :: int
  currentBatch :: "validated_record list"
  validOnly :: bool

text \<open>\<^verbatim>\<open>options.batchSize || 100\<close>: a size left out and the size 0 both give 100.\<close>

definition BatchTransformer_new :: "batch_options \<Rightarrow> batcher" where
  "BatchTransformer_new options =
     \<lparr>batchSize = (case opt_batchSize options of
                     None \<Rightarrow> 100
                   | Some b \<Rightarrow> if b = 0 then 100 else b),
      currentBatch = [],
      validOnly = (case opt_validOnly options of None \<Rightarrow> True | Some v \<Rightarrow> v)\<rparr>"

text \<open>\<^verbatim>\<open>BatchTransformer._transform\<close>: the new state and the batches pushed (none or one).\<close>

definition batch_transform :: "batcher \<Rightarrow> validated_record \<Rightarrow> batcher \<times> validated_record list list" where
  "batch_transform t chunk =
     (if validOnly t \<and> \<not> valid chunk then (t, [])
      else
        let t1 = t\<lparr>currentBatch := currentBatch t @ [chunk]\<rparr>
        in if int (length (currentBatch t1)) \<ge> batchSize t1
           then (t1\<lparr>currentBatch := []\<rparr>, [currentBatch t1])
           else (t1, []))"

text \<open>\<^verbatim>\<open>BatchTransformer._flush\<close>\<close>

definition batch_flush :: "batcher \<Rightarrow> batcher \<times> validated_record list list" where
  "batch_flush t =
     (if length (currentBatch t) > 0
      then (t\<lparr>currentBatch := []\<rparr>, [currentBatch t])
      else (t, []))"

text \<open>The calls of \<^verbatim>\<open>_transform\<close> on a sequence of records, before the end of input.\<close>

fun batch_feed :: "batcher \<Rightarrow> validated_record list \<Rightarrow> batcher \<times> validated_record list list" where
  "batch_feed t [] = (t, [])"
| "batch_feed t (c # cs) =
     (let (t1, out1) = batch_transform t c;
          (t2, out2) = batch_feed t1 cs
      in (t2, out1 @ out2))"

text \<open>A whole stream: every record, then the end of input.\<close>

definition batch_run :: "batcher \<Rightarrow> validated_record list \<Rightarrow> batcher \<times> validated_record list list" where
  "batch_run t cs =
     (let (t1, out1) = batch_feed t cs;
          (t2, out2) = batch_flush t1
      in (t2, out1 @ out2))"

text \<open>The records the batcher keeps: all of them, or the valid ones.\<close>

definition admitted :: "batcher \<Rightarrow> validated_record \<Rightarrow> bool" where
  "admitted t c = (\<not> (validOnly t \<and> \<not> valid c))"

section \<open>Numbers\<close>

text \<open>
  A number of the program is a binary64 value. A finite one is modelled by the real it
  stands for, and each arithmetic operation returns the exact result rounded to the
  nearest value with 53 significant bits, ties to the even one. Sizes in bytes and
  megabytes are far from the largest and the smallest binary64 values, so overflow to
  infinity and the coarser subnormal grid are left out.
\<close>

text \<open>The nearest integer, a tie going to the even neighbour.\<close>

definition round_half_even :: "real \<Rightarrow> int" where
  "round_half_even y =
     (let f = \<lfloor>y\<rfloor>; d = y - of_int f
      in if d < 1 / 2 then f
         else if d > 1 / 2 then f + 1
         else if even f then f else f + 1)"

text \<open>
  A positive \<open>y\<close> standing for \<open>y * 2 powi e\<close> is halved or doubled until it lies in
  the interval from \<open>2 ^ 52\<close> up to \<open>2 ^ 53\<close>; the first argument bounds the number
  of steps.
\<close>

fun binade :: "nat \<Rightarrow> real \<Rightarrow> int \<Rightarrow> real \<times> int" where
  "binade 0 y e = (y, e)"
| "binade (Suc n) y e =
     (if y \<ge> 2 ^ 53 then binade n (y / 2) (e + 1)
      else if y < 2 ^ 52 then binade n (y * 2) (e - 1)
      else (y, e))"

definition round64 :: "real \<Rightarrow> real" where
  "round64 x =
     (if x = 0 then 0
      else
        let (y, e) = binade 2200 \<bar>x\<bar> 0
        in sgn x * of_int (round_half_even y) * 2 powi e)"

text \<open>\<^verbatim>\<open>a + b\<close>, \<^verbatim>\<open>a * b\<close> and \<^verbatim>\<open>a / b\<close> (the divisors of the program are not zero).\<close>

definition fadd :: "real \<Rightarrow> real \<Rightarrow> real" where
  "fadd a b = round64 (a + b)"

definition fmul :: "real \<Rightarrow> real \<Rightarrow> real" where
  "fmul a b = round64 (a * b)"

definition fdiv :: "real \<Rightarrow> real \<Rightarrow> real" where
  "fdiv a b = round64 (a / b)"


section \<open>The memory graph\<close>

text \<open>What \<^verbatim>\<open>process.memoryUsage()\<close> reports, in bytes.\<close>

record memory_usage =
  mu_heapUsed :: nat
  mu_heapTotal :: nat
  mu_rss :: nat
  mu_external :: nat

text \<open>The object sent with the \<^verbatim>\<open>memory\<close> event, in megabytes.\<close>

record memory_info =
  heap_used :: real
  heap_total :: real
  info_rss :: real
  info_external :: real

record memory_graph =
  maxDataPoints :: nat
  heapUsed :: "real list"
  heapTotal :: "real list"
  rss :: "real list"
  external :: "real list"
  graph_running :: bool
  maxMemoryUsed :: real

text \<open>\<^verbatim>\<open>options.maxDataPoints || 60\<close>\<close>

definition MemoryGraph_new :: "nat option \<Rightarrow> memory_graph" where
  "MemoryGraph_new opt_maxDataPoints =
     \<lparr>maxDataPoints = (case opt_maxDataPoints of
                         None \<Rightarrow> 60
                       | Some n \<Rightarrow> if n = 0 then 60 else n),
      heapUsed = [], heapTotal = [], rss = [], external = [],
      graph_running = False,
      maxMemoryUsed = 0\<rparr>"

text \<open>\<^verbatim>\<open>MemoryGraph.start\<close>: the maximum is reset, the collected data is not.\<close>

definition graph_start :: "memory_graph \<Rightarrow> memory_graph" where
  "graph_start g =
     (if graph_running g then g
      else g\<lparr>graph_running := True, maxMemoryUsed := 0\<rparr>)"

text \<open>\<^verbatim>\<open>MemoryGraph.stop\<close>: the timer is cleared; the collected data stays.\<close>

definition graph_stop :: "memory_graph \<Rightarrow> memory_graph" where
  "graph_stop g =
     (if \<not> graph_running g then g
      else g\<lparr>graph_running := False\<rparr>)"

text \<open>
  \<^verbatim>\<open>Math.round((bytes / 1024 / 1024) * 100) / 100\<close>. \<^verbatim>\<open>Math.round\<close> and \<open>round\<close> both
  give the nearest integer and round a half upwards.
\<close>

definition bytesToMB :: "nat \<Rightarrow> real" where
  "bytesToMB bytes =
     fdiv (real_of_int (round (fmul (fdiv (fdiv (real bytes) 1024) 1024) 100))) 100"

text \<open>\<^verbatim>\<open>_updateDataCollection\<close> on one of the four collections.\<close>

definition updateDataCollection :: "nat \<Rightarrow> real list \<Rightarrow> real \<Rightarrow> real list" where
  "updateDataCollection limit xs v =
     (let ys = xs @ [v]
      in if length ys > limit then tl ys else ys)"

text \<open>\<^verbatim>\<open>_captureMemoryUsage\<close>: one tick of the timer. It returns what it emits.\<close>

definition captureMemoryUsage :: "memory_graph \<Rightarrow> memory_usage \<Rightarrow> memory_graph \<times> memory_info" where
  "captureMemoryUsage g memoryUsage =
     (let heapUsedMB = bytesToMB (mu_heapUsed memoryUsage);
          g1 = (if heapUsedMB > maxMemoryUsed g then g\<lparr>maxMemoryUsed := heapUsedMB\<rparr> else g);
          g2 = g1\<lparr>heapUsed := updateDataCollection (maxDataPoints g1) (heapUsed g1) heapUsedMB\<rparr>;
          g3 = g2\<lparr>heapTotal :=
                    updateDataCollection (maxDataPoints g2) (heapTotal g2)
                      (bytesToMB (mu_heapTotal memoryUsage))\<rparr>;
          g4 = g3\<lparr>rss :=
                    updateDataCollection (maxDataPoints g3) (rss g3) (bytesToMB (mu_rss memoryUsage))\<rparr>;
          g5 = g4\<lparr>external :=
                    updateDataCollection (maxDataPoints g4) (external g4)
                      (bytesToMB (mu_external memoryUsage))\<rparr>
      in (g5,
          \<lparr>heap_used = heapUsedMB,
           heap_total = bytesToMB (mu_heapTotal memoryUsage),
           info_rss = bytesToMB (mu_rss memoryUsage),
           info_external = bytesToMB (mu_external memoryUsage)\<rparr>))"

text \<open>The ticks of the timer, in order.\<close>

fun capture_all :: "memory_graph \<Rightarrow> memory_usage list \<Rightarrow> memory_graph" where
  "capture_all g [] = g"
| "capture_all g (u # us) = capture_all (fst (captureMemoryUsage g u)) us"

record memory_stats =
  current :: real
  max_stat :: real
  average :: real

text \<open>\<^verbatim>\<open>MemoryGraph.getStats\<close>\<close>

definition getStats :: "memory_graph \<Rightarrow> memory_stats" where
  "getStats g =
     (if length (heapUsed g) = 0 then \<lparr>current = 0, max_stat = 0, average = 0\<rparr>
      else
        let cur = last (heapUsed g);
            sum = foldl (\<lambda>acc val. fadd acc val) 0 (heapUsed g);
            avg = fdiv sum (real (length (heapUsed g)))
        in \<lparr>current = cur, max_stat = maxMemoryUsed g, average = avg\<rparr>)"

text \<open>The heap-used samples of a sequence of ticks.\<close>

definition heap_samples :: "memory_usage list \<Rightarrow> real list" where
  "heap_samples us = map (\<lambda>u. bytesToMB (mu_heapUsed u)) us"

text \<open>
  The mean of a list of numbers, and the mean as the program computes one: the sum from
  left to right, then the division, each step rounded.
\<close>

definition mean :: "real list \<Rightarrow> real" where
  "mean xs = sum_list xs / real (length xs)"

definition mean64 :: "real list \<Rightarrow> real" where
  "mean64 xs = fdiv (foldl (\<lambda>acc val. fadd acc val) 0 xs) (real (length xs))"

section \<open>The memory monitor\<close>

record monitor_options =
  thresholdMB :: real
  autoThrottle :: bool

record memory_monitor =
  options :: monitor_options
  memoryGraph :: memory_graph
  throttling :: bool


text \<open>
  The constructor: the threshold and the flag as resolved from the options and the
  environment; the graph keeps 120 points.
\<close>

definition MemoryMonitor_new :: "monitor_options \<Rightarrow> memory_monitor" where
  "MemoryMonitor_new opts =
     \<lparr>options = opts, memoryGraph = MemoryGraph_new (Some 120), throttling = False\<rparr>"





section \<open>The store\<close>

text \<open>
  The statements the program sends: the three of the transaction, the insert of many rows
  of \<^verbatim>\<open>batchInsert\<close> and the insert of one row of \<^verbatim>\<open>insert\<close>.
\<close>

datatype query =
    BEGIN
  | COMMIT
  | ROLLBACK
  | INSERT_BATCH "raw_record list"
  | INSERT_ONE raw_record

text \<open>
  What a rejected promise carries: an error of the store with its code and message, or a
  \<^verbatim>\<open>TypeError\<close> of the program, which has no code.
\<close>

datatype js_error = DbError string string | TypeError string

fun error_code :: "js_error \<Rightarrow> string option" where
  "error_code (DbError c m) = Some c"
| "error_code (TypeError m) = None"

fun error_message :: "js_error \<Rightarrow> string" where
  "error_message (DbError c m) = m"
| "error_message (TypeError m) = m"

text \<open>
  The database server and the connection pool are outside the repository. They are a
  parameter: \<open>connect\<close> hands out a client or fails, \<open>exec\<close> runs a statement and
  returns the error or the identity keys of the rows (\<^verbatim>\<open>RETURNING id\<close>).
\<close>

record 'db driver =
  connect :: "'db \<Rightarrow> js_error option \<times> 'db"
  exec :: "'db \<Rightarrow> query \<Rightarrow> (js_error + nat list) \<times> 'db"

text \<open>The store together with the statements sent to it so far, oldest first.\<close>

record 'db world =
  db :: 'db
  issued :: "query list"

definition run_query :: "'db driver \<Rightarrow> query \<Rightarrow> 'db world \<Rightarrow> (js_error + nat list) \<times> 'db world" where
  "run_query drv q w =
     (let (r, d) = exec drv (db w) q
      in (r, \<lparr>db = d, issued = issued w @ [q]\<rparr>))"

section \<open>The employee model\<close>

text \<open>
  \<^verbatim>\<open>Employee.insert\<close>. \<open>Inr (Some i)\<close> is the inserted row with its key, \<open>Inr None\<close>
  is \<^verbatim>\<open>null\<close> (unique violation, code 23505), \<open>Inl\<close> is an error thrown. Reading
  \<^verbatim>\<open>rows[0].id\<close> of an empty result is a \<^verbatim>\<open>TypeError\<close> inside the \<^verbatim>\<open>try\<close>: it has
  no code and is thrown again.
\<close>

definition Employee_insert ::
  "'db driver \<Rightarrow> raw_record \<Rightarrow> 'db world \<Rightarrow> (js_error + nat option) \<times> 'db world" where
  "Employee_insert drv employee w =
     (let (result, w1) = run_query drv (INSERT_ONE employee) w
      in case result of
           Inr ids \<Rightarrow>
             (case ids of
                [] \<Rightarrow> (Inl (TypeError ''Cannot read properties of undefined''), w1)
              | i # _ \<Rightarrow> (Inr (Some i), w1))
         | Inl error \<Rightarrow>
             if error_code error = Some ''23505'' then (Inr None, w1) else (Inl error, w1))"

text \<open>
  The \<^verbatim>\<open>catch\<close> of \<^verbatim>\<open>batchInsert\<close>: send \<^verbatim>\<open>ROLLBACK\<close>, then throw the error again
  (or the error of the rollback itself).
\<close>

definition rollback :: "'db driver \<Rightarrow> js_error \<Rightarrow> 'db world \<Rightarrow> (js_error + nat list) \<times> 'db world" where
  "rollback drv error w =
     (let (r, w1) = run_query drv ROLLBACK w
      in case r of Inl error' \<Rightarrow> (Inl error', w1) | Inr _ \<Rightarrow> (Inl error, w1))"

text \<open>
  \<^verbatim>\<open>Employee.batchInsert\<close>. The client is taken before the \<^verbatim>\<open>try\<close>: when the pool
  cannot hand one out, the error is thrown with no statement sent. Releasing the client
  does not change the store.
\<close>

definition Employee_batchInsert ::
  "'db driver \<Rightarrow> raw_record list \<Rightarrow> 'db world \<Rightarrow> (js_error + nat list) \<times> 'db world" where
  "Employee_batchInsert drv employees w =
     (if length employees = 0 then (Inr [], w)
      else
        case connect drv (db w) of
          (Some error, d) \<Rightarrow> (Inl error, w\<lparr>db := d\<rparr>)
        | (None, d) \<Rightarrow>
            (let (r1, w1) = run_query drv BEGIN (w\<lparr>db := d\<rparr>)
             in case r1 of
                  Inl error \<Rightarrow> rollback drv error w1
                | Inr _ \<Rightarrow>
                    (let (result, w2) = run_query drv (INSERT_BATCH employees) w1
                     in case result of
                          Inl error \<Rightarrow> rollback drv error w2
                        | Inr ids \<Rightarrow>
                            (let (r3, w3) = run_query drv COMMIT w2
                             in case r3 of
                                  Inl error \<Rightarrow> rollback drv error w3
                                | Inr _ \<Rightarrow> (Inr ids, w3)))))"

section \<open>The database writer\<close>

record writer_stats =
  totalProcessed :: nat
  successfulInserts :: nat
  failedInserts :: nat
  insert_errors :: "(raw_record \<times> string) list"

definition DatabaseWriter_new :: writer_stats where
  "DatabaseWriter_new =
     \<lparr>totalProcessed = 0, successfulInserts = 0, failedInserts = 0, insert_errors = []\<rparr>"

text \<open>One turn of the loop over the valid employees after a failed batch.\<close>

definition insert_one :: "'db driver \<Rightarrow> writer_stats \<Rightarrow> raw_record \<Rightarrow> 'db world \<Rightarrow> writer_stats \<times> 'db world" where
  "insert_one drv st employee w =
     (let (inserted, w1) = Employee_insert drv employee w
      in case inserted of
           Inr (Some i) \<Rightarrow> (st\<lparr>successfulInserts := successfulInserts st + 1\<rparr>, w1)
         | Inr None \<Rightarrow>
             (st\<lparr>failedInserts := failedInserts st + 1,
                 insert_errors := insert_errors st @
                   [(employee, ''Failed to insert record (likely duplicate email)'')]\<rparr>, w1)
         | Inl singleError \<Rightarrow>
             (st\<lparr>failedInserts := failedInserts st + 1,
                 insert_errors := insert_errors st @ [(employee, error_message singleError)]\<rparr>, w1))"

text \<open>The loop: every employee in turn, whatever happened to those before.\<close>

fun fallback :: "'db driver \<Rightarrow> writer_stats \<Rightarrow> raw_record list \<Rightarrow> 'db world \<Rightarrow> writer_stats \<times> 'db world" where
  "fallback drv st [] w = (st, w)"
| "fallback drv st (employee # rest) w =
     (let (st1, w1) = insert_one drv st employee w
      in fallback drv st1 rest w1)"

text \<open>A chunk is an array of records or, wrapped by the writer, a single record.\<close>

datatype chunk = Batch "validated_record list" | Single validated_record

text \<open>
  \<^verbatim>\<open>DatabaseWriter._write\<close>. On records of the pipeline nothing outside the inner
  \<^verbatim>\<open>try\<close> throws, so the outer \<^verbatim>\<open>catch\<close> has no counterpart.
\<close>

definition writer_write :: "'db driver \<Rightarrow> writer_stats \<Rightarrow> chunk \<Rightarrow> 'db world \<Rightarrow> writer_stats \<times> 'db world" where
  "writer_write drv st chunk w =
     (let records = (case chunk of Batch rs \<Rightarrow> rs | Single r \<Rightarrow> [r])
      in if length records = 0 then (st, w)
         else
           let validEmployees = map data (filter valid records);
               st1 = st\<lparr>totalProcessed := totalProcessed st + length records\<rparr>
           in if length validEmployees = 0 then (st1, w)
              else
                case Employee_batchInsert drv validEmployees w of
                  (Inr insertedIds, w1) \<Rightarrow>
                    (st1\<lparr>successfulInserts := successfulInserts st1 + length insertedIds\<rparr>, w1)
                | (Inl dbError, w1) \<Rightarrow> fallback drv st1 validEmployees w1)"

text \<open>The writer fed a sequence of chunks.\<close>

fun write_all :: "'db driver \<Rightarrow> writer_stats \<Rightarrow> chunk list \<Rightarrow> 'db world \<Rightarrow> writer_stats \<times> 'db world" where
  "write_all drv st [] w = (st, w)"
| "write_all drv st (c # cs) w =
     (let (st1, w1) = writer_write drv st c w
      in write_all drv st1 cs w1)"

text \<open>
  An insert of several rows that succeeds returns one key for each row, as
  \<^verbatim>\<open>INSERT ... RETURNING id\<close> does.
\<close>

definition one_id_per_row :: "'db driver \<Rightarrow> bool" where
  "one_id_per_row drv =
     (\<forall>d es ids d'. exec drv d (INSERT_BATCH es) = (Inr ids, d') \<longrightarrow> length ids = length es)"

section \<open>A store with a unique e-mail column\<close>

text \<open>
  The table of the program's \<^verbatim>\<open>CREATE TABLE\<close>, reduced to the e-mail column and its
  \<^verbatim>\<open>UNIQUE NOT NULL\<close> constraint: the state is the list of e-mails stored, and the key
  of a row is its position. It serves to run the writer on concrete batches.
\<close>

definition emails_of :: "raw_record list \<Rightarrow> string option list" where
  "emails_of es = map (\<lambda>e. e ''email'') es"

definition table_exec :: "string list \<Rightarrow> query \<Rightarrow> (js_error + nat list) \<times> string list" where
  "table_exec tbl q =
     (case q of
        BEGIN \<Rightarrow> (Inr [], tbl)
      | COMMIT \<Rightarrow> (Inr [], tbl)
      | ROLLBACK \<Rightarrow> (Inr [], tbl)
      | INSERT_BATCH es \<Rightarrow>
          if None \<in> set (emails_of es) then (Inl (DbError ''23502'' ''null value in column email''), tbl)
          else if \<not> distinct (emails_of es) \<or> (\<exists>m \<in> set (emails_of es). m \<in> Some ` set tbl)
          then (Inl (DbError ''23505'' ''duplicate key value violates unique constraint''), tbl)
          else (Inr [length tbl ..< length tbl + length es], tbl @ map the (emails_of es))
      | INSERT_ONE e \<Rightarrow>
          (case e ''email'' of
             None \<Rightarrow> (Inl (DbError ''23502'' ''null value in column email''), tbl)
           | Some m \<Rightarrow>
               if m \<in> set tbl
               then (Inl (DbError ''23505'' ''duplicate key value violates unique constraint''), tbl)
               else (Inr [length tbl], tbl @ [m])))"

definition table_driver :: "string list driver" where
  "table_driver = \<lparr>connect = (\<lambda>tbl. (None, tbl)), exec = table_exec\<rparr>"

section \<open>The pipeline\<close>

text \<open>
  The stages in the order of \<^verbatim>\<open>processEmployeeFile\<close>: rows, employee transformer,
  batch transformer, database writer. The stage that counts records and delays them
  while throttling passes every row on unchanged.
\<close>

definition pipeline ::
  "runtime \<Rightarrow> batch_options \<Rightarrow> 'db driver \<Rightarrow> raw_record list \<Rightarrow> 'db world \<Rightarrow>
     transformer_stats \<times> writer_stats \<times> 'db world" where
  "pipeline rt opts drv rows w =
     (let (tstats, records) = employee_run rt EmployeeTransformer_new rows;
          (t, batches) = batch_run (BatchTransformer_new opts) records;
          (wstats, w') = write_all drv DatabaseWriter_new (map Batch batches) w
      in (tstats, wstats, w'))"

section \<open>Example inputs\<close>

definition no_runtime :: runtime where
  "no_runtime = \<lparr>Date_parse = (\<lambda>s. NaN), parseFloat = (\<lambda>s. NaN)\<rparr>"

definition row_lee :: raw_record where
  "row_lee = [''first_name'' \<mapsto> '''', ''last_name'' \<mapsto> ''Lee'', ''email'' \<mapsto> ''a@b.com'']"

definition row_bad_email :: raw_record where
  "row_bad_email = [''first_name'' \<mapsto> ''A'', ''last_name'' \<mapsto> ''B'', ''email'' \<mapsto> ''not-an-email'']"

definition row_ok :: raw_record where
  "row_ok = [''first_name'' \<mapsto> ''A'', ''last_name'' \<mapsto> ''B'', ''email'' \<mapsto> ''a@b.com'']"

definition row_ok2 :: raw_record where
  "row_ok2 = [''first_name'' \<mapsto> ''C'', ''last_name'' \<mapsto> ''D'', ''email'' \<mapsto> ''c@d.org'']"

definition rec_ok :: validated_record where
  "rec_ok = \<lparr>data = row_ok, valid = True, record_errors = []\<rparr>"

definition rec_ok2 :: validated_record where
  "rec_ok2 = \<lparr>data = row_ok2, valid = True, record_errors = []\<rparr>"

definition rec_bad :: validated_record where
  "rec_bad = \<lparr>data = row_lee, valid = False, record_errors = [''First name is required'']\<rparr>"

definition opts2 :: batch_options where
  "opts2 = \<lparr>opt_batchSize = Some 2, opt_validOnly = None\<rparr>"

definition records4 :: "validated_record list" where
  "records4 = [rec_ok, rec_bad, rec_ok2, rec_ok]"

definition usage :: "nat \<Rightarrow> memory_usage" where
  "usage b = \<lparr>mu_heapUsed = b, mu_heapTotal = b, mu_rss = b, mu_external = 0\<rparr>"

text \<open>One sample of 200 MB followed by 120 samples of 100 MB.\<close>

definition usages121 :: "memory_usage list" where
  "usages121 = usage 209715200 # replicate 120 (usage 104857600)"

text \<open>A graph that took one sample of 200 MB and was stopped; one later sample of 100 MB.\<close>

definition restarted :: memory_graph where
  "restarted =
     graph_stop (capture_all (graph_start (MemoryGraph_new (Some 120))) [usage 209715200])"

definition usages1 :: "memory_usage list" where
  "usages1 = [usage 104857600]"



text \<open>A store that already holds the e-mail of \<open>row_ok\<close>, and a batch of three records.\<close>

definition world0 :: "string list world" where
  "world0 = \<lparr>db = [''a@b.com''], issued = []\<rparr>"

definition batch3 :: "validated_record list" where
  "batch3 = [rec_ok, rec_bad, rec_ok2]"

section \<open>Properties of the validator\<close>

lemmas validator_defs =
  validateEmployee_def name_errors_def email_errors_def hire_date_errors_def salary_errors_def
  blank_def isValidEmail_def emailRegex_def not_space_at_def is_space_def trim_def

lemma validate_row_lee:
  "validateEmployee rt (JObject row_lee) =
     \<lparr>isValid = False, errors = [''First name is required'']\<rparr>"
  by (simp add: validator_defs row_lee_def)

lemma validate_row_bad_email:
  "validateEmployee rt (JObject row_bad_email) =
     \<lparr>isValid = False, errors = [''Email format is invalid'']\<rparr>"
  by (simp add: validator_defs row_bad_email_def)

lemma validate_row_ok:
  "validateEmployee rt (JObject row_ok) = \<lparr>isValid = True, errors = []\<rparr>"
  by (simp add: validator_defs row_ok_def)

lemma validate_row_ok2:
  "validateEmployee rt (JObject row_ok2) = \<lparr>isValid = True, errors = []\<rparr>"
  by (simp add: validator_defs row_ok2_def)

text \<open>
  Claim C8. The validator is a function of its argument (and of the runtime's two
  parsers, which the three rows of the specification never reach: they have no hire
  date and no salary), so two calls on the same row agree. On the row with an empty
  first name the verdict is invalid and the reasons include \<open>First name is required\<close>;
  on the row whose e-mail is \<open>not-an-email\<close> the verdict is invalid and the reasons
  include the e-mail format error; the third row is valid and has no reasons.
\<close>

theorem validateEmployee_examples:
  "validateEmployee rt (JObject row_lee) = validateEmployee rt' (JObject row_lee) \<and>
   validateEmployee rt (JObject row_bad_email) = validateEmployee rt' (JObject row_bad_email) \<and>
   validateEmployee rt (JObject row_ok) = validateEmployee rt' (JObject row_ok) \<and>
   \<not> isValid (validateEmployee rt (JObject row_lee)) \<and>
   ''First name is required'' \<in> set (errors (validateEmployee rt (JObject row_lee))) \<and>
   \<not> isValid (validateEmployee rt (JObject row_bad_email)) \<and>
   ''Email format is invalid'' \<in> set (errors (validateEmployee rt (JObject row_bad_email))) \<and>
   isValid (validateEmployee rt (JObject row_ok)) \<and>
   errors (validateEmployee rt (JObject row_ok)) = []"
  by (simp add: validate_row_lee validate_row_bad_email validate_row_ok)

theorem validateEmployee_examples_witness:
  "\<not> isValid (validateEmployee no_runtime (JObject row_lee)) \<and>
   isValid (validateEmployee no_runtime (JObject row_ok)) \<and>
   row_lee ''first_name'' = Some [] \<and> row_ok ''email'' = Some ''a@b.com''"
  using validateEmployee_examples [of no_runtime no_runtime]
  by (simp add: row_lee_def row_ok_def)

text \<open>
  Claim C10. On \<^verbatim>\<open>null\<close>, on \<^verbatim>\<open>undefined\<close> and on every value whose \<^verbatim>\<open>typeof\<close> is
  not \<open>object\<close> the validator returns the invalid verdict with the single reason
  \<open>Invalid employee data format\<close>; no field rule adds a reason, and the runtime's parsers
  play no part. The function is total: there is no input on which it throws.
\<close>

theorem validateEmployee_not_object:
  assumes "employee = JNull \<or> employee = JUndefined \<or> typeof employee \<noteq> ''object''"
  shows "validateEmployee rt employee =
           \<lparr>isValid = False, errors = [''Invalid employee data format'']\<rparr>"
  using assms by (auto simp: validateEmployee_def)

theorem validateEmployee_not_object_witness:
  "typeof (JNumber (Finite 5)) \<noteq> ''object'' \<and>
   validateEmployee no_runtime (JNumber (Finite 5)) =
     \<lparr>isValid = False, errors = [''Invalid employee data format'']\<rparr> \<and>
   validateEmployee no_runtime JNull =
     \<lparr>isValid = False, errors = [''Invalid employee data format'']\<rparr>"
  using validateEmployee_not_object [of "JNumber (Finite 5)" no_runtime]
        validateEmployee_not_object [of JNull no_runtime]
  by simp

section \<open>Properties of the employee transformer\<close>

lemma employee_transform_step:
  "employee_transform rt st c = (st', out) \<Longrightarrow>
     processed st' = processed st + 1 \<and>
     ((stats_valid st' = stats_valid st + 1 \<and> stats_invalid st' = stats_invalid st) \<or>
      (stats_valid st' = stats_valid st \<and> stats_invalid st' = stats_invalid st + 1))"
  by (cases "isValid (validateEmployee rt (JObject c))")
     (auto simp: employee_transform_def Let_def)

lemma employee_transform_out:
  "employee_transform rt st c = (st', out) \<Longrightarrow>
     (\<exists>v. out = [v] \<and> data v = c \<and>
          stats_valid st' = stats_valid st + length (filter valid out))"
  by (cases "isValid (validateEmployee rt (JObject c))")
     (auto simp: employee_transform_def Let_def)

lemma employee_run_Cons:
  assumes "employee_transform rt st c = (st1, out1)" and "employee_run rt st1 cs = (st2, out2)"
  shows "employee_run rt st (c # cs) = (st2, out1 @ out2)"
  using assms by simp

lemma employee_run_counts:
  "employee_run rt st cs = (st', out) \<Longrightarrow>
     processed st' = processed st + length cs \<and>
     stats_valid st' + stats_invalid st' = stats_valid st + stats_invalid st + length cs \<and>
     stats_valid st' = stats_valid st + length (filter valid out) \<and>
     map data out = cs"
proof (induction cs arbitrary: st st' out)
  case Nil
  then show ?case by simp
next
  case (Cons c cs)
  obtain st1 out1 where s1: "employee_transform rt st c = (st1, out1)" by force
  obtain st2 out2 where s2: "employee_run rt st1 cs = (st2, out2)" by force
  have e: "st' = st2" "out = out1 @ out2"
    using Cons.prems unfolding employee_run_Cons[OF s1 s2] by simp_all
  from employee_transform_out[OF s1] obtain v where v: "out1 = [v]" "data v = c"
     "stats_valid st1 = stats_valid st + length (filter valid out1)" by blast
  note a = employee_transform_step[OF s1]
  note b = Cons.IH[OF s2]
  have 1: "processed st' = processed st + length (c # cs)" using a b e by simp
  have 2: "stats_valid st' + stats_invalid st' =
             stats_valid st + stats_invalid st + length (c # cs)"
    using a b e by auto
  have 3: "stats_valid st' = stats_valid st + length (filter valid out)"
    using b v e by simp
  have 4: "map data out = c # cs" using b v e by simp
  show ?case using 1 2 3 4 by blast
qed

lemma employee_run_new:
  assumes "employee_run rt EmployeeTransformer_new cs = (st, out)"
  shows "processed st = length cs \<and> stats_valid st + stats_invalid st = length cs \<and>
         stats_valid st = length (filter valid out) \<and> map data out = cs"
  using employee_run_counts[OF assms] by (simp add: EmployeeTransformer_new_def)

text \<open>
  Claim C7. One call of the transformer adds one to the processed counter and one to
  exactly one of the valid and invalid counters. Hence, from a new transformer, after any
  number \<open>n\<close> of the rows of an input (an intermediate point, or the end when \<open>n\<close> is
  its length) the processed counter is the sum of the valid and invalid counters, and is
  the number of rows consumed.
\<close>

theorem processed_is_valid_plus_invalid:
  "processed (fst (employee_transform rt st row)) = processed st + 1 \<and>
   ((stats_valid (fst (employee_transform rt st row)) = stats_valid st + 1 \<and>
     stats_invalid (fst (employee_transform rt st row)) = stats_invalid st) \<or>
    (stats_valid (fst (employee_transform rt st row)) = stats_valid st \<and>
     stats_invalid (fst (employee_transform rt st row)) = stats_invalid st + 1)) \<and>
   processed (fst (employee_run rt EmployeeTransformer_new (take n rows))) =
     stats_valid (fst (employee_run rt EmployeeTransformer_new (take n rows))) +
     stats_invalid (fst (employee_run rt EmployeeTransformer_new (take n rows))) \<and>
   processed (fst (employee_run rt EmployeeTransformer_new (take n rows))) =
     length (take n rows)"
proof -
  obtain st' out where s: "employee_transform rt st row = (st', out)" by force
  obtain st2 out2 where r: "employee_run rt EmployeeTransformer_new (take n rows) = (st2, out2)"
    by force
  show ?thesis
    unfolding s r using employee_transform_step[OF s] employee_run_new[OF r] by simp
qed

theorem processed_is_valid_plus_invalid_witness:
  "processed (fst (employee_run no_runtime EmployeeTransformer_new [row_ok, row_lee, row_ok2])) = 3 \<and>
   stats_valid (fst (employee_run no_runtime EmployeeTransformer_new [row_ok, row_lee, row_ok2])) = 2 \<and>
   stats_invalid (fst (employee_run no_runtime EmployeeTransformer_new [row_ok, row_lee, row_ok2])) = 1"
  using processed_is_valid_plus_invalid
          [of no_runtime EmployeeTransformer_new row_ok 3 "[row_ok, row_lee, row_ok2]"]
  by (simp add: employee_transform_def EmployeeTransformer_new_def
        validate_row_ok validate_row_lee validate_row_ok2)

section \<open>Properties of the batch transformer\<close>

lemma batch_transform_frame:
  "batch_transform t c = (t', out) \<Longrightarrow> batchSize t' = batchSize t \<and> validOnly t' = validOnly t"
  by (auto simp: batch_transform_def Let_def split: if_splits)

lemma batch_transform_concat:
  "batch_transform t c = (t', out) \<Longrightarrow>
     concat out @ currentBatch t' = currentBatch t @ filter (admitted t) [c]"
  by (auto simp: batch_transform_def admitted_def Let_def split: if_splits)

lemma batch_transform_sizes:
  assumes "batch_transform t c = (t', out)" and "int (length (currentBatch t)) < batchSize t"
  shows "(\<forall>b \<in> set out. int (length b) = batchSize t) \<and> int (length (currentBatch t')) < batchSize t
         \<and> length out \<le> 1"
  using assms by (auto simp: batch_transform_def Let_def split: if_splits)

lemma batch_feed_Cons:
  assumes "batch_transform t c = (t1, out1)" and "batch_feed t1 cs = (t2, out2)"
  shows "batch_feed t (c # cs) = (t2, out1 @ out2)"
  using assms by simp

lemma admitted_frame: "validOnly t' = validOnly t \<Longrightarrow> admitted t' = admitted t"
  by (simp add: admitted_def fun_eq_iff)

lemma batch_feed_frame:
  "batch_feed t cs = (t', out) \<Longrightarrow> batchSize t' = batchSize t \<and> validOnly t' = validOnly t"
proof (induction cs arbitrary: t t' out)
  case Nil
  then show ?case by simp
next
  case (Cons c cs)
  obtain t1 out1 where s1: "batch_transform t c = (t1, out1)" by force
  obtain t2 out2 where s2: "batch_feed t1 cs = (t2, out2)" by force
  have e: "t' = t2"
    using Cons.prems unfolding batch_feed_Cons[OF s1 s2] by simp
  from batch_transform_frame[OF s1] Cons.IH[OF s2] show ?case unfolding e by simp
qed

lemma batch_feed_concat:
  "batch_feed t cs = (t', out) \<Longrightarrow>
     concat out @ currentBatch t' = currentBatch t @ filter (admitted t) cs"
proof (induction cs arbitrary: t t' out)
  case Nil
  then show ?case by simp
next
  case (Cons c cs)
  obtain t1 out1 where s1: "batch_transform t c = (t1, out1)" by force
  obtain t2 out2 where s2: "batch_feed t1 cs = (t2, out2)" by force
  have e: "t' = t2" "out = out1 @ out2"
    using Cons.prems unfolding batch_feed_Cons[OF s1 s2] by simp_all
  have adm: "admitted t1 = admitted t"
    using batch_transform_frame[OF s1] by (intro admitted_frame) simp
  have ih: "concat out2 @ currentBatch t2 = currentBatch t1 @ filter (admitted t) cs"
    using Cons.IH[OF s2] unfolding adm .
  have st: "concat out1 @ currentBatch t1 = currentBatch t @ filter (admitted t) [c]"
    by (rule batch_transform_concat[OF s1])
  have "concat (out1 @ out2) @ currentBatch t2 = concat out1 @ (concat out2 @ currentBatch t2)"
    by simp
  also have "\<dots> = (concat out1 @ currentBatch t1) @ filter (admitted t) cs"
    unfolding ih by simp
  also have "\<dots> = (currentBatch t @ filter (admitted t) [c]) @ filter (admitted t) cs"
    unfolding st ..
  also have "\<dots> = currentBatch t @ filter (admitted t) (c # cs)"
    by simp
  finally show ?case unfolding e .
qed

lemma batch_feed_sizes:
  "batch_feed t cs = (t', out) \<Longrightarrow> int (length (currentBatch t)) < batchSize t \<Longrightarrow>
     (\<forall>b \<in> set out. int (length b) = batchSize t) \<and> int (length (currentBatch t')) < batchSize t"
proof (induction cs arbitrary: t t' out)
  case Nil
  then show ?case by simp
next
  case (Cons c cs)
  obtain t1 out1 where s1: "batch_transform t c = (t1, out1)" by force
  obtain t2 out2 where s2: "batch_feed t1 cs = (t2, out2)" by force
  have e: "t' = t2" "out = out1 @ out2"
    using Cons.prems(1) unfolding batch_feed_Cons[OF s1 s2] by simp_all
  note a = batch_transform_sizes[OF s1 Cons.prems(2)]
  have fr: "batchSize t1 = batchSize t" using batch_transform_frame[OF s1] by simp
  have inv1: "int (length (currentBatch t1)) < batchSize t1" using a fr by simp
  note b = Cons.IH[OF s2 inv1]
  have 1: "\<forall>b \<in> set (out1 @ out2). int (length b) = batchSize t"
    using a b fr by auto
  have 2: "int (length (currentBatch t2)) < batchSize t" using b fr by simp
  show ?case unfolding e using 1 2 by blast
qed

lemma length_concat_uniform:
  "\<forall>b \<in> set bs. length b = n \<Longrightarrow> length (concat bs) = length bs * n"
  by (induction bs) auto

lemma div_mod_unique_nat:
  fixes a q r B :: nat
  assumes "a = q * B + r" and "r < B"
  shows "q = a div B \<and> r = a mod B"
  using assms by simp

lemma batch_feed_count:
  assumes run: "batch_feed t cs = (t', out)"
    and inv: "int (length (currentBatch t)) < batchSize t"
  shows "length out = (length (currentBatch t) + length (filter (admitted t) cs)) div nat (batchSize t)
       \<and> length (currentBatch t') = (length (currentBatch t) + length (filter (admitted t) cs)) mod nat (batchSize t)"
proof -
  let ?B = "nat (batchSize t)"
  have sz: "\<forall>b \<in> set out. length b = ?B" and lt: "length (currentBatch t') < ?B"
    using batch_feed_sizes[OF run inv] by auto
  have "length (concat out @ currentBatch t') = length (currentBatch t @ filter (admitted t) cs)"
    using batch_feed_concat[OF run] by simp
  then have total: "length (currentBatch t) + length (filter (admitted t) cs) = length out * ?B + length (currentBatch t')"
    using length_concat_uniform[OF sz] by simp
  show ?thesis by (rule div_mod_unique_nat[OF total lt])
qed

lemma batch_run_eq:
  assumes "batch_feed t cs = (t1, full)" and "batch_flush t1 = (t2, rest)"
  shows "batch_run t cs = (t2, full @ rest)"
  using assms by (simp add: batch_run_def)

lemma batch_flush_cases:
  "batch_flush t = (t', out) \<Longrightarrow>
     currentBatch t' = [] \<and> batchSize t' = batchSize t \<and> validOnly t' = validOnly t \<and>
     out = (if currentBatch t = [] then [] else [currentBatch t])"
  by (auto simp: batch_flush_def split: if_splits)

lemma new_batcher_empty: "currentBatch (BatchTransformer_new opts) = []"
  by (simp add: BatchTransformer_new_def)

text \<open>
  Claim C5. With a capacity \<open>B\<close> of at least one, every batch a new batch transformer
  emits, at the end of input included, has between 1 and \<open>B\<close> records, so none is
  empty; and every batch emitted before the end of input has exactly \<open>B\<close> records.
\<close>

theorem batch_length_bounds:
  assumes new: "t = BatchTransformer_new opts" and cap: "1 \<le> batchSize t"
  shows "(\<forall>b \<in> set (snd (batch_run t cs)). 1 \<le> length b \<and> int (length b) \<le> batchSize t) \<and>
         (\<forall>b \<in> set (snd (batch_feed t cs)). int (length b) = batchSize t)"
proof -
  obtain t1 full where s1: "batch_feed t cs = (t1, full)" by force
  obtain t2 rest where s2: "batch_flush t1 = (t2, rest)" by force
  have inv: "int (length (currentBatch t)) < batchSize t"
    using cap unfolding new by (simp add: new_batcher_empty)
  have full: "\<forall>b \<in> set full. int (length b) = batchSize t"
    and lt: "int (length (currentBatch t1)) < batchSize t"
    using batch_feed_sizes[OF s1 inv] by auto
  have rest: "rest = (if currentBatch t1 = [] then [] else [currentBatch t1])"
    using batch_flush_cases[OF s2] by simp
  have r: "\<forall>b \<in> set rest. 1 \<le> length b \<and> int (length b) \<le> batchSize t"
    using lt unfolding rest by (auto simp: Suc_le_eq)
  have f: "\<forall>b \<in> set full. 1 \<le> length b \<and> int (length b) \<le> batchSize t"
    using full cap by auto
  have "\<forall>b \<in> set (full @ rest). 1 \<le> length b \<and> int (length b) \<le> batchSize t"
    using r f by auto
  then show ?thesis
    unfolding batch_run_eq[OF s1 s2] s1 using full by simp
qed

text \<open>
  Claim C6. With validity filtering on, the batches a new batch transformer emits,
  concatenated in the order of emission, are the valid records of its input in the order
  of arrival: each valid record is in one batch, at its place, and no invalid record is
  in any. Nothing is left in the transformer after the end of input.
\<close>

theorem batches_are_the_valid_records:
  assumes new: "t = BatchTransformer_new opts" and filtering: "validOnly t"
  shows "concat (snd (batch_run t cs)) = filter valid cs \<and> currentBatch (fst (batch_run t cs)) = []"
proof -
  obtain t1 full where s1: "batch_feed t cs = (t1, full)" by force
  obtain t2 rest where s2: "batch_flush t1 = (t2, rest)" by force
  have adm: "admitted t = valid" using filtering by (simp add: admitted_def fun_eq_iff)
  have "concat full @ currentBatch t1 = filter valid cs"
    using batch_feed_concat[OF s1] unfolding new new_batcher_empty adm[unfolded new] by simp
  moreover have "concat rest = currentBatch t1" and "currentBatch t2 = []"
    using batch_flush_cases[OF s2] by auto
  ultimately show ?thesis unfolding batch_run_eq[OF s1 s2] by simp
qed

text \<open>
  Claim C4. Let \<open>V \<ge> 1\<close> records be taken by a new batcher of capacity \<open>B \<ge> 1\<close>. The
  calls of \<^verbatim>\<open>_transform\<close> emit \<open>V div B\<close> batches of \<open>B\<close> records and leave
  \<open>V mod B\<close> records in progress; \<^verbatim>\<open>_flush\<close> emits that rest as one batch when it is
  not empty and nothing otherwise, and a second flush emits nothing. So the last batch
  emitted has \<open>V mod B\<close> records when that is not zero and \<open>B\<close> records otherwise.
\<close>

theorem last_batch_and_flush:
  assumes new: "t = BatchTransformer_new opts" and cap: "1 \<le> batchSize t"
    and V: "V = length (filter (admitted t) cs)" and some: "1 \<le> V"
    and B: "B = nat (batchSize t)"
    and feed: "batch_feed t cs = (t1, full)" and flush: "batch_flush t1 = (t2, rest)"
  shows "snd (batch_run t cs) = full @ rest \<and>
         length (last (full @ rest)) = (if V mod B \<noteq> 0 then V mod B else B) \<and>
         length full = V div B \<and> (\<forall>b \<in> set full. length b = B) \<and>
         rest = (if V mod B = 0 then [] else [currentBatch t1]) \<and>
         length (currentBatch t1) = V mod B \<and>
         snd (batch_flush t2) = []"
proof -
  have inv: "int (length (currentBatch t)) < batchSize t"
    using cap unfolding new by (simp add: new_batcher_empty)
  have Bpos: "0 < B" using cap B by simp
  have full: "\<forall>b \<in> set full. length b = B"
    using batch_feed_sizes[OF feed inv] B by auto
  have cnt: "length full = V div B" and left: "length (currentBatch t1) = V mod B"
    using batch_feed_count[OF feed inv] unfolding new new_batcher_empty V B by simp_all
  have fl: "currentBatch t2 = []" "rest = (if currentBatch t1 = [] then [] else [currentBatch t1])"
    using batch_flush_cases[OF flush] by simp_all
  have "(currentBatch t1 = []) = (V mod B = 0)"
    using left by (metis length_0_conv)
  then have rest: "rest = (if V mod B = 0 then [] else [currentBatch t1])"
    using fl(2) by simp
  have again: "snd (batch_flush t2) = []"
    using fl(1) by (simp add: batch_flush_def)
  have lst: "length (last (full @ rest)) = (if V mod B \<noteq> 0 then V mod B else B)"
  proof (cases "V mod B = 0")
    case True
    then have "rest = []" using rest by simp
    moreover have "full \<noteq> []"
    proof
      assume "full = []"
      then have "V div B = 0" using cnt by simp
      then have "V < B" using Bpos by (simp add: div_eq_0_iff)
      then have "V = 0" using True by simp
      then show False using some by simp
    qed
    ultimately show ?thesis using full True by simp
  next
    case False
    then show ?thesis using rest left by simp
  qed
  show ?thesis
    using batch_run_eq[OF feed flush] lst cnt full rest left again by simp
qed

lemma new2:
  "BatchTransformer_new opts2 = \<lparr>batchSize = 2, currentBatch = [], validOnly = True\<rparr>"
  by (simp add: BatchTransformer_new_def opts2_def)

lemma new2_fields:
  "batchSize (BatchTransformer_new opts2) = 2" "validOnly (BatchTransformer_new opts2)"
  by (simp_all add: new2)

lemma feed4:
  "batch_feed (BatchTransformer_new opts2) records4 =
     (\<lparr>batchSize = 2, currentBatch = [rec_ok], validOnly = True\<rparr>, [[rec_ok, rec_ok2]])"
  by (simp add: batch_transform_def new2 records4_def rec_ok_def rec_ok2_def rec_bad_def)

lemma flush4:
  "batch_flush \<lparr>batchSize = 2, currentBatch = [rec_ok], validOnly = True\<rparr> =
     (\<lparr>batchSize = 2, currentBatch = [], validOnly = True\<rparr>, [[rec_ok]])"
  by (simp add: batch_flush_def)

lemma run4:
  "batch_run (BatchTransformer_new opts2) records4 =
     (\<lparr>batchSize = 2, currentBatch = [], validOnly = True\<rparr>, [[rec_ok, rec_ok2], [rec_ok]])"
  by (simp add: batch_run_def feed4 flush4)

lemma admitted4:
  "filter (admitted (BatchTransformer_new opts2)) records4 = [rec_ok, rec_ok2, rec_ok]"
  by (simp add: admitted_def new2 records4_def rec_ok_def rec_ok2_def rec_bad_def)

lemma valid4: "filter valid records4 = [rec_ok, rec_ok2, rec_ok]"
  by (simp add: records4_def rec_ok_def rec_ok2_def rec_bad_def)

theorem batch_length_bounds_witness:
  "1 \<le> batchSize (BatchTransformer_new opts2) \<and>
   map length (snd (batch_run (BatchTransformer_new opts2) records4)) = [2, 1] \<and>
   map length (snd (batch_feed (BatchTransformer_new opts2) records4)) = [2]"
  using batch_length_bounds [OF refl, of opts2 records4]
  by (simp add: run4 feed4 new2_fields)

theorem batches_are_the_valid_records_witness:
  "validOnly (BatchTransformer_new opts2) \<and>
   concat (snd (batch_run (BatchTransformer_new opts2) records4)) = [rec_ok, rec_ok2, rec_ok] \<and>
   snd (batch_run (BatchTransformer_new opts2) records4) = [[rec_ok, rec_ok2], [rec_ok]] \<and>
   filter valid records4 = [rec_ok, rec_ok2, rec_ok]"
  using batches_are_the_valid_records [OF refl, of opts2 records4]
  by (simp add: run4 valid4 new2_fields)

theorem last_batch_and_flush_witness:
  "1 \<le> batchSize (BatchTransformer_new opts2) \<and>
   length (filter (admitted (BatchTransformer_new opts2)) records4) = 3 \<and>
   nat (batchSize (BatchTransformer_new opts2)) = 2 \<and>
   length (last (snd (batch_run (BatchTransformer_new opts2) records4))) = 1 \<and>
   snd (batch_flush (fst (batch_feed (BatchTransformer_new opts2) records4))) = [[rec_ok]]"
proof -
  have cap: "1 \<le> batchSize (BatchTransformer_new opts2)" by (simp add: new2_fields)
  have V: "(3::nat) = length (filter (admitted (BatchTransformer_new opts2)) records4)"
    by (simp add: admitted4)
  have B: "(2::nat) = nat (batchSize (BatchTransformer_new opts2))" by (simp add: new2_fields)
  show ?thesis
    using last_batch_and_flush [OF refl cap V _ B feed4 flush4] cap V B
    by (simp add: run4 feed4 flush4)
qed

text \<open>
  The number of batches. A new batcher of capacity \<open>B \<ge> 1\<close> that takes \<open>V\<close> records
  emits \<open>V div B\<close> batches, and one more when \<open>B\<close> does not divide \<open>V\<close>. With 900
  valid records and capacity 100 (the fixture of 1000 rows, 100 of them invalid) it
  emits exactly 9 batches.
\<close>

theorem number_of_batches:
  assumes new: "t = BatchTransformer_new opts" and cap: "1 \<le> batchSize t"
    and V: "V = length (filter (admitted t) cs)" and B: "B = nat (batchSize t)"
  shows "length (snd (batch_run t cs)) = V div B + (if V mod B = 0 then 0 else 1) \<and>
         (V = 900 \<and> B = 100 \<longrightarrow> length (snd (batch_run t cs)) = 9)"
proof -
  obtain t1 full where s1: "batch_feed t cs = (t1, full)" by force
  obtain t2 rest where s2: "batch_flush t1 = (t2, rest)" by force
  have inv: "int (length (currentBatch t)) < batchSize t"
    using cap unfolding new by (simp add: new_batcher_empty)
  have cnt: "length full = V div B" and left: "length (currentBatch t1) = V mod B"
    using batch_feed_count[OF s1 inv] unfolding new new_batcher_empty V B by simp_all
  have "(currentBatch t1 = []) = (V mod B = 0)"
    using left by (metis length_0_conv)
  then have "length rest = (if V mod B = 0 then 0 else 1)"
    using batch_flush_cases[OF s2] by simp
  then have n: "length (snd (batch_run t cs)) = V div B + (if V mod B = 0 then 0 else 1)"
    unfolding batch_run_eq[OF s1 s2] using cnt by simp
  have "V = 900 \<and> B = 100 \<longrightarrow> length (snd (batch_run t cs)) = 9"
    unfolding n by simp
  then show ?thesis using n by blast
qed

theorem number_of_batches_witness:
  "1 \<le> batchSize (BatchTransformer_new opts2) \<and>
   length (filter (admitted (BatchTransformer_new opts2)) records4) = 3 \<and>
   length (snd (batch_run (BatchTransformer_new opts2) records4)) = 2"
proof -
  have cap: "1 \<le> batchSize (BatchTransformer_new opts2)" by (simp add: new2_fields)
  have V: "(3::nat) = length (filter (admitted (BatchTransformer_new opts2)) records4)"
    by (simp add: admitted4)
  have B: "(2::nat) = nat (batchSize (BatchTransformer_new opts2))" by (simp add: new2_fields)
  have "length (snd (batch_run (BatchTransformer_new opts2) records4)) =
          3 div 2 + (if (3::nat) mod 2 = 0 then 0 else 1)"
    by (rule number_of_batches [OF refl cap V B, THEN conjunct1])
  then show ?thesis using cap V by simp
qed

lemma batch_feed_singletons:
  "batch_feed t cs = (t', out) \<Longrightarrow> batchSize t \<le> 1 \<Longrightarrow> currentBatch t = [] \<Longrightarrow>
     out = map (\<lambda>c. [c]) (filter (admitted t) cs) \<and> currentBatch t' = []"
proof (induction cs arbitrary: t t' out)
  case Nil
  then show ?case by simp
next
  case (Cons c cs)
  obtain t1 out1 where s1: "batch_transform t c = (t1, out1)" by force
  obtain t2 out2 where s2: "batch_feed t1 cs = (t2, out2)" by force
  have e: "t' = t2" "out = out1 @ out2"
    using Cons.prems(1) unfolding batch_feed_Cons[OF s1 s2] by simp_all
  have fr: "batchSize t1 = batchSize t" "validOnly t1 = validOnly t"
    using batch_transform_frame[OF s1] by simp_all
  have adm: "admitted t1 = admitted t" using fr(2) by (rule admitted_frame)
  have one: "out1 = map (\<lambda>c. [c]) (filter (admitted t) [c]) \<and> currentBatch t1 = []"
    using s1 Cons.prems(2,3) by (auto simp: batch_transform_def admitted_def Let_def split: if_splits)
  have rest: "out2 = map (\<lambda>c. [c]) (filter (admitted t) cs) \<and> currentBatch t2 = []"
    using Cons.IH[OF s2] Cons.prems(2) fr(1) one adm by simp
  show ?case unfolding e using one rest by simp
qed

text \<open>
  A size below one. The constructor keeps a negative \<^verbatim>\<open>batchSize\<close> as it is (only a
  missing size and 0 become 100). Then, as with size 1, every record the batcher takes is
  emitted at once as a batch of its own, and the flush has nothing left to emit: each
  batch has one record, more than the negative size.
\<close>

theorem negative_size_gives_singletons:
  assumes "opt_batchSize opts = Some b" and "b < 0" and "t = BatchTransformer_new opts"
  shows "batchSize t = b \<and>
         snd (batch_run t cs) = map (\<lambda>c. [c]) (filter (admitted t) cs)"
proof -
  obtain t1 full where s1: "batch_feed t cs = (t1, full)" by force
  obtain t2 rest where s2: "batch_flush t1 = (t2, rest)" by force
  have bs: "batchSize t = b" using assms by (simp add: BatchTransformer_new_def)
  have le: "batchSize t \<le> 1" using bs assms(2) by simp
  have em: "currentBatch t = []" unfolding assms(3) by (rule new_batcher_empty)
  note f = batch_feed_singletons[OF s1 le em]
  have "rest = []" using batch_flush_cases[OF s2] f by simp
  then show ?thesis unfolding batch_run_eq[OF s1 s2] using f bs by simp
qed

theorem negative_size_gives_singletons_witness:
  "snd (batch_run (BatchTransformer_new \<lparr>opt_batchSize = Some (- 5), opt_validOnly = None\<rparr>) records4)
     = [[rec_ok], [rec_ok2], [rec_ok]]"
proof -
  have a: "filter (admitted (BatchTransformer_new \<lparr>opt_batchSize = Some (- 5), opt_validOnly = None\<rparr>))
             records4 = [rec_ok, rec_ok2, rec_ok]"
    by (simp add: admitted_def BatchTransformer_new_def records4_def rec_ok_def rec_ok2_def rec_bad_def)
  have "snd (batch_run (BatchTransformer_new \<lparr>opt_batchSize = Some (- 5), opt_validOnly = None\<rparr>) records4)
     = map (\<lambda>c. [c]) (filter (admitted (BatchTransformer_new \<lparr>opt_batchSize = Some (- 5), opt_validOnly = None\<rparr>)) records4)"
    by (rule negative_size_gives_singletons
         [of "\<lparr>opt_batchSize = Some (- 5), opt_validOnly = None\<rparr>" "- 5", OF _ _ refl, THEN conjunct2])
       simp_all
  then show ?thesis unfolding a by simp
qed

section \<open>Properties of the numbers\<close>

lemma binade_value:
  "binade n y e = (y', e') \<Longrightarrow> y' * 2 powi e' = y * 2 powi e"
proof (induction n arbitrary: y e)
  case 0
  then show ?case by simp
next
  case (Suc n)
  show ?case
  proof (cases "y \<ge> 2 ^ 53")
    case True
    then have "binade n (y / 2) (e + 1) = (y', e')" using Suc.prems by simp
    from Suc.IH[OF this] show ?thesis by (simp add: power_int_add)
  next
    case False
    show ?thesis
    proof (cases "y < 2 ^ 52")
      case True
      then have "binade n (y * 2) (e - 1) = (y', e')" using Suc.prems False by simp
      from Suc.IH[OF this] show ?thesis by (simp add: power_int_diff)
    next
      case False
      then show ?thesis using Suc.prems \<open>\<not> 2 ^ 53 \<le> y\<close> by simp
    qed
  qed
qed

lemma binade_range:
  "binade n y e = (y', e') \<Longrightarrow> 2 ^ 52 \<le> y * 2 ^ n \<Longrightarrow> y < 2 ^ 53 * 2 ^ n \<Longrightarrow>
     2 ^ 52 \<le> y' \<and> y' < 2 ^ 53"
proof (induction n arbitrary: y e)
  case 0
  then show ?case by simp
next
  case (Suc n)
  have one: "(1::real) \<le> 2 ^ n" by simp
  show ?case
  proof (cases "y \<ge> 2 ^ 53")
    case True
    then have r: "binade n (y / 2) (e + 1) = (y', e')" using Suc.prems(1) by simp
    have "(2::real) ^ 52 * 1 \<le> (y / 2) * 2 ^ n"
      by (rule mult_mono) (use True one in simp_all)
    then have a: "2 ^ 52 \<le> (y / 2) * 2 ^ n" by simp
    have b: "y / 2 < 2 ^ 53 * 2 ^ n" using Suc.prems(3) by simp
    show ?thesis by (rule Suc.IH[OF r a b])
  next
    case False
    show ?thesis
    proof (cases "y < 2 ^ 52")
      case True
      then have r: "binade n (y * 2) (e - 1) = (y', e')" using Suc.prems(1) False by simp
      have a: "2 ^ 52 \<le> (y * 2) * 2 ^ n" using Suc.prems(2) by (simp add: mult.assoc)
      have "y * 2 < 2 ^ 53 * 1" using True by simp
      also have "\<dots> \<le> 2 ^ 53 * 2 ^ n" by (rule mult_left_mono) (use one in simp_all)
      finally have b: "y * 2 < 2 ^ 53 * 2 ^ n" .
      show ?thesis by (rule Suc.IH[OF r a b])
    next
      case False
      then show ?thesis using Suc.prems(1) \<open>\<not> 2 ^ 53 \<le> y\<close> by simp
    qed
  qed
qed

lemma binade_exponent_le:
  fixes a b :: real
  assumes q: "a * 2 powi e1 = b * 2 powi e2" and a: "2 ^ 52 \<le> a" and b: "b < 2 ^ 53"
  shows "e1 \<le> e2"
proof (rule ccontr)
  assume "\<not> e1 \<le> e2"
  then have d: "1 \<le> e1 - e2" by simp
  have "(2::real) powi 1 \<le> 2 powi (e1 - e2)" by (rule power_int_increasing[OF d]) simp
  then have two: "2 \<le> (2::real) powi (e1 - e2)" by simp
  have beq: "b = a * 2 powi (e1 - e2)" using q by (simp add: power_int_diff field_simps)
  have apos: "0 \<le> a" using a by (meson order_trans zero_le_numeral zero_le_power)
  have "a * 2 \<le> a * 2 powi (e1 - e2)" by (rule mult_left_mono[OF two apos])
  then have "2 ^ 52 * 2 \<le> b" using a beq by linarith
  then show False using b by simp
qed

lemma binade_unique:
  fixes y y' :: real
  assumes eq: "y' * 2 powi e' = y * 2 powi e"
    and y: "2 ^ 52 \<le> y" "y < 2 ^ 53" and y': "2 ^ 52 \<le> y'" "y' < 2 ^ 53"
  shows "e' = e \<and> y' = y"
proof -
  have "e' \<le> e" by (rule binade_exponent_le[OF eq y'(1) y(2)])
  moreover have "e \<le> e'" by (rule binade_exponent_le[OF eq[symmetric] y(1) y'(2)])
  ultimately have e: "e' = e" by simp
  then have "y' = y" using eq by simp
  then show ?thesis using e by simp
qed

lemma round64_at:
  assumes lo: "2 ^ 52 \<le> \<bar>x\<bar> / 2 powi e" and hi: "\<bar>x\<bar> / 2 powi e < 2 ^ 53"
    and e: "- 2000 \<le> e" "e \<le> 2000"
  shows "round64 x = sgn x * of_int (round_half_even (\<bar>x\<bar> / 2 powi e)) * 2 powi e"
proof -
  define y where "y = \<bar>x\<bar> / 2 powi e"
  define N :: nat where "N = 2200"
  have x0: "x \<noteq> 0" using lo by auto
  have xe: "\<bar>x\<bar> = y * 2 powi e" by (simp add: y_def)
  have ylo: "2 ^ 52 \<le> y" and yhi: "y < 2 ^ 53" using lo hi by (simp_all add: y_def)
  have ypos: "0 \<le> y" using ylo by (meson order_trans zero_le_numeral zero_le_power)
  obtain y' e' where n: "binade N \<bar>x\<bar> 0 = (y', e')" by force
  have val: "y' * 2 powi e' = y * 2 powi e"
    using binade_value[OF n] xe by simp
  have a: "2 ^ 52 \<le> \<bar>x\<bar> * 2 ^ N"
  proof -
    have "0 \<le> e + int N" using e(1) by (simp add: N_def)
    then have "(2::real) powi 0 \<le> 2 powi (e + int N)" by (rule power_int_increasing) simp
    then have one: "1 \<le> (2::real) powi (e + int N)" by simp
    have "y * 1 \<le> y * 2 powi (e + int N)" by (rule mult_left_mono[OF one ypos])
    also have "\<dots> = \<bar>x\<bar> * 2 ^ N"
    proof -
      have "(2::real) powi (e + int N) = 2 powi e * 2 ^ N" by (simp add: power_int_add)
      then show ?thesis unfolding xe by simp
    qed
    finally show ?thesis using ylo by simp
  qed
  have b: "\<bar>x\<bar> < 2 ^ 53 * 2 ^ N"
  proof -
    have "e \<le> int N" using e(2) by (simp add: N_def)
    then have "(2::real) powi e \<le> 2 powi (int N)" by (rule power_int_increasing) simp
    then have le: "(2::real) powi e \<le> 2 ^ N" by (simp only: power_int_of_nat)
    have "y * 2 powi e \<le> y * 2 ^ N" by (rule mult_left_mono[OF le ypos])
    also have "\<dots> < 2 ^ 53 * 2 ^ N" by (rule mult_strict_right_mono[OF yhi]) simp
    finally show ?thesis unfolding xe .
  qed
  have rng: "2 ^ 52 \<le> y' \<and> y' < 2 ^ 53" by (rule binade_range[OF n a b])
  have u: "e' = e \<and> y' = y"
    using binade_unique[OF val ylo yhi] rng by blast
  have "round64 x = sgn x * of_int (round_half_even y') * 2 powi e'"
    using x0 n[unfolded N_def] by (simp add: round64_def)
  then show ?thesis using u unfolding y_def by simp
qed

lemma round_half_even_int: "round_half_even (of_int k) = k"
  by (simp add: round_half_even_def)

lemma round64_0: "round64 0 = 0"
  by (simp add: round64_def)

lemma round64_nat:
  assumes "i < 2 ^ 53"
  shows "round64 (real i) = real i"
proof (cases "i = 0")
  case True
  then show ?thesis by (simp add: round64_0)
next
  case False
  then have "1 \<le> i" by simp
  then obtain k where k: "2 ^ k \<le> i" "i < 2 ^ (k + 1)"
    using ex_power_ivl1[of 2 i] by auto
  have "(2::nat) ^ k < 2 ^ 53" using k(1) assms by linarith
  then have k53: "k < 53" using power_less_imp_less_exp[of 2 k 53] by simp
  define j where "j = 52 - k"
  have kj: "k + j = 52" using k53 by (simp add: j_def)
  define e where "e = - int j"
  have sc: "\<bar>real i\<bar> / 2 powi e = real (i * 2 ^ j)"
    by (simp add: e_def power_int_minus field_simps)
  have lo: "2 ^ 52 \<le> \<bar>real i\<bar> / 2 powi e"
  proof -
    have "(2::nat) ^ 52 = 2 ^ k * 2 ^ j" unfolding kj[symmetric] by (rule power_add)
    also have "\<dots> \<le> i * 2 ^ j" using k(1) by simp
    finally have "real ((2::nat) ^ 52) \<le> real (i * 2 ^ j)" using of_nat_le_iff by blast
    then show ?thesis unfolding sc by simp
  qed
  have hi: "\<bar>real i\<bar> / 2 powi e < 2 ^ 53"
  proof -
    have "i * 2 ^ j < 2 ^ (k + 1) * 2 ^ j" using k(2) by simp
    also have "\<dots> = 2 ^ 53"
    proof -
      have "(2::nat) ^ (k + 1) * 2 ^ j = 2 ^ (Suc (k + j))" by (simp add: power_add)
      then show ?thesis unfolding kj by simp
    qed
    finally have "real (i * 2 ^ j) < real ((2::nat) ^ 53)" using of_nat_less_iff by blast
    then show ?thesis unfolding sc by simp
  qed
  have e1: "- 2000 \<le> e" "e \<le> 2000" using kj by (simp_all add: e_def)
  have "round64 (real i) = sgn (real i) * of_int (round_half_even (real (i * 2 ^ j))) * 2 powi e"
    using round64_at[OF lo hi e1] unfolding sc .
  also have "round_half_even (real (i * 2 ^ j)) = int (i * 2 ^ j)"
    using round_half_even_int[of "int (i * 2 ^ j)"] by simp
  also have "sgn (real i) * of_int (int (i * 2 ^ j)) * 2 powi e = real i"
    using False by (simp add: e_def power_int_minus field_simps)
  finally show ?thesis .
qed

lemma round64_numeral [simp]:
  "numeral n < (2::nat) ^ 53 \<Longrightarrow> round64 (numeral n) = numeral n"
  using round64_nat[of "numeral n"] by simp

lemma round64_nonneg: "0 \<le> x \<Longrightarrow> 0 \<le> round64 x"
proof (cases "x = 0")
  case True
  then show ?thesis by (simp add: round64_0)
next
  case False
  assume "0 \<le> x"
  obtain y' e' where n: "binade 2200 \<bar>x\<bar> 0 = (y', e')" by force
  have "y' * 2 powi e' = \<bar>x\<bar>" using binade_value[OF n] by simp
  moreover have "(0::real) < 2 powi e'" by simp
  ultimately have "0 \<le> y'" by (metis abs_ge_zero zero_le_mult_iff not_less order_less_imp_le)
  then have "0 \<le> \<lfloor>y'\<rfloor>" by simp
  then have "0 \<le> round_half_even y'" by (simp add: round_half_even_def Let_def)
  then show ?thesis using \<open>0 \<le> x\<close> False n by (simp add: round64_def sgn_if)
qed






section \<open>Properties of the memory graph and the memory monitor\<close>

lemma bytesToMB_nonneg: "0 \<le> bytesToMB b"
proof -
  have a1: "0 \<le> fdiv (real b) 1024" unfolding fdiv_def by (rule round64_nonneg) simp
  have a2: "0 \<le> fdiv (fdiv (real b) 1024) 1024"
    unfolding fdiv_def[of _ 1024] using a1[unfolded fdiv_def] by (intro round64_nonneg) simp
  have a3: "0 \<le> fmul (fdiv (fdiv (real b) 1024) 1024) 100"
    unfolding fmul_def using a2 by (intro round64_nonneg) simp
  have "0 \<le> round (fmul (fdiv (fdiv (real b) 1024) 1024) 100)"
    using a3 by (simp add: round_def)
  then show ?thesis unfolding bytesToMB_def fdiv_def[of _ 100] by (intro round64_nonneg) simp
qed

lemma bytesToMB_100: "bytesToMB 104857600 = 100"
  by (simp add: bytesToMB_def fdiv_def fmul_def)

lemma bytesToMB_200: "bytesToMB 209715200 = 200"
  by (simp add: bytesToMB_def fdiv_def fmul_def)

lemma getStats_average:
  "heapUsed g \<noteq> [] \<Longrightarrow> average (getStats g) = mean64 (heapUsed g)"
  by (simp add: getStats_def mean64_def Let_def)

lemma getStats_max:
  "heapUsed g \<noteq> [] \<Longrightarrow> max_stat (getStats g) = maxMemoryUsed g"
  by (simp add: getStats_def Let_def)

lemma updateDataCollection_window:
  assumes "0 < N" and "xs = drop (length zs - N) zs"
  shows "updateDataCollection N xs v = drop (length (zs @ [v]) - N) (zs @ [v])"
proof (cases "length zs < N")
  case True
  then show ?thesis using assms by (simp add: updateDataCollection_def Let_def)
next
  case False
  then have len: "length xs = N" using assms by simp
  then have ne: "xs \<noteq> []" using assms(1) by auto
  have "updateDataCollection N xs v = tl (xs @ [v])"
    using len by (simp add: updateDataCollection_def Let_def)
  also have "\<dots> = drop 1 xs @ [v]" using ne by (simp add: drop_Suc)
  also have "\<dots> = drop (Suc (length zs - N)) zs @ [v]"
    using assms(2) by simp
  also have "\<dots> = drop (length (zs @ [v]) - N) (zs @ [v])"
    using False assms(1) by (simp add: Suc_diff_le)
  finally show ?thesis .
qed

lemma capture_heapUsed:
  "heapUsed (fst (captureMemoryUsage g u)) =
     updateDataCollection (maxDataPoints g) (heapUsed g) (bytesToMB (mu_heapUsed u))"
  by (simp add: captureMemoryUsage_def Let_def)

lemma capture_maxDataPoints:
  "maxDataPoints (fst (captureMemoryUsage g u)) = maxDataPoints g"
  by (simp add: captureMemoryUsage_def Let_def)

lemma capture_maxMemoryUsed:
  "maxMemoryUsed (fst (captureMemoryUsage g u)) = max (maxMemoryUsed g) (bytesToMB (mu_heapUsed u))"
  by (simp add: captureMemoryUsage_def Let_def max_def)

lemma capture_all_fields:
  assumes "0 < maxDataPoints g" and "heapUsed g = drop (length zs - maxDataPoints g) zs"
  shows "heapUsed (capture_all g us) =
           drop (length (zs @ heap_samples us) - maxDataPoints g) (zs @ heap_samples us) \<and>
         maxDataPoints (capture_all g us) = maxDataPoints g \<and>
         maxMemoryUsed (capture_all g us) = fold max (heap_samples us) (maxMemoryUsed g)"
  using assms
proof (induction us arbitrary: g zs)
  case Nil
  then show ?case by (simp add: heap_samples_def)
next
  case (Cons u us)
  let ?g1 = "fst (captureMemoryUsage g u)"
  let ?v = "bytesToMB (mu_heapUsed u)"
  have N1: "0 < maxDataPoints ?g1" using Cons.prems(1) by (simp add: capture_maxDataPoints)
  have h1: "heapUsed ?g1 = drop (length (zs @ [?v]) - maxDataPoints ?g1) (zs @ [?v])"
    unfolding capture_heapUsed capture_maxDataPoints
    by (rule updateDataCollection_window[OF Cons.prems(1) Cons.prems(2)])
  have hs: "heap_samples (u # us) = ?v # heap_samples us" by (simp add: heap_samples_def)
  show ?case
    using Cons.IH[OF N1 h1]
    by (simp add: hs capture_maxDataPoints capture_maxMemoryUsed max.commute)
qed

lemma fold_max_Max:
  fixes a :: real
  assumes "xs \<noteq> []" and "\<forall>x \<in> set xs. a \<le> x"
  shows "fold max xs a = Max (set xs)"
proof -
  have "fold max xs a = Max (insert a (set xs))"
    by (metis Max.set_eq_fold list.simps(15))
  also have "\<dots> = Max (set xs)"
  proof -
    obtain x where x: "x \<in> set xs" using assms(1) by (cases xs) auto
    have "a \<le> Max (set xs)" using assms(2) x by (meson List.finite_set Max_ge order_trans)
    then show ?thesis using assms(1) by (simp add: max_def)
  qed
  finally show ?thesis .
qed

lemma graph_start_fields:
  assumes "\<not> graph_running g0"
  shows "maxDataPoints (graph_start g0) = maxDataPoints g0"
    and "heapUsed (graph_start g0) = heapUsed g0"
    and "maxMemoryUsed (graph_start g0) = 0"
  using assms by (simp_all add: graph_start_def)

lemma new_graph_fields:
  "maxDataPoints (MemoryGraph_new (Some 120)) = 120"
  "heapUsed (MemoryGraph_new (Some 120)) = []"
  "\<not> graph_running (MemoryGraph_new (Some 120))"
  by (simp_all add: MemoryGraph_new_def)

lemma graph_stop_fields:
  "maxDataPoints (graph_stop g) = maxDataPoints g"
  "heapUsed (graph_stop g) = heapUsed g"
  "\<not> graph_running (graph_stop g)"
  by (simp_all add: graph_stop_def)

lemma monitor_graph: "memoryGraph (MemoryMonitor_new opts) = MemoryGraph_new (Some 120)"
  by (simp add: MemoryMonitor_new_def)

lemma stats_after_captures:
  assumes g: "g = capture_all (graph_start g0) us" and ne: "us \<noteq> []"
    and stopped: "\<not> graph_running g0"
    and N: "maxDataPoints g0 = 120" and old: "length (heapUsed g0) \<le> 120"
  shows "max_stat (getStats g) = Max (set (heap_samples us)) \<and>
         heapUsed g = drop (length (heapUsed g0 @ heap_samples us) - 120)
                        (heapUsed g0 @ heap_samples us) \<and>
         length (heapUsed g) \<le> 120 \<and>
         average (getStats g) =
           mean64 (drop (length (heapUsed g0 @ heap_samples us) - 120)
                     (heapUsed g0 @ heap_samples us)) \<and>
         (heapUsed g0 = [] \<and> length us \<le> 120 \<longrightarrow>
            heapUsed g = heap_samples us \<and> average (getStats g) = mean64 (heap_samples us))"
proof -
  let ?g1 = "graph_start g0"
  let ?all = "heapUsed g0 @ heap_samples us"
  note s = graph_start_fields[OF stopped]
  have N1: "0 < maxDataPoints ?g1" using s(1) N by simp
  have h0: "heapUsed ?g1 = drop (length (heapUsed g0) - maxDataPoints ?g1) (heapUsed g0)"
    using s(1,2) N old by simp
  note f = capture_all_fields[OF N1 h0, of us]
  have len: "length (heap_samples us) = length us" by (simp add: heap_samples_def)
  have win: "heapUsed g = drop (length ?all - 120) ?all"
    using f unfolding g by (simp add: s(1) N)
  have "length ?all \<noteq> 0" using ne len by simp
  then have "\<not> length ?all \<le> length ?all - 120" by linarith
  then have nonempty: "heapUsed g \<noteq> []"
    unfolding win drop_eq_Nil .
  have hs_ne: "heap_samples us \<noteq> []" using ne by (simp add: heap_samples_def)
  have nonneg: "\<forall>x \<in> set (heap_samples us). (0::real) \<le> x"
    by (auto simp: heap_samples_def bytesToMB_nonneg)
  have mx: "maxMemoryUsed g = Max (set (heap_samples us))"
    using f fold_max_Max[OF hs_ne nonneg] unfolding g by (simp add: s(3))
  have 1: "max_stat (getStats g) = Max (set (heap_samples us))"
    using getStats_max[OF nonempty] mx by simp
  have 3: "length (heapUsed g) \<le> 120" unfolding win by simp
  have 4: "average (getStats g) = mean64 (drop (length ?all - 120) ?all)"
    using getStats_average[OF nonempty] win by simp
  have 5: "heapUsed g0 = [] \<and> length us \<le> 120 \<longrightarrow>
            heapUsed g = heap_samples us \<and> average (getStats g) = mean64 (heap_samples us)"
    using 4 win len by simp
  show ?thesis using 1 win 3 4 5 by blast
qed

text \<open>
  Claim C9, as the code has it. Let the graph of a monitor (120 points) be started while
  it is not running, and let at least one sample be taken after that start. The reported
  maximum is the maximum of heap-used over the samples since the start. The graph keeps
  the most recent 120 of all the samples it has collected, those of an earlier run
  included, since only the maximum is reset by a start. The reported average is the mean
  of the samples kept, computed in binary64: the sum from left to right, then the
  division, each step rounded. On a graph that held no samples at the start and as long
  as no more than 120 were taken, the samples kept are the samples since the start.
\<close>

theorem memory_stats_window:
  assumes "g = capture_all (graph_start g0) us" and "us \<noteq> []"
    and "\<not> graph_running g0"
    and "maxDataPoints g0 = 120" and "length (heapUsed g0) \<le> 120"
  shows "max_stat (getStats g) = Max (set (heap_samples us)) \<and>
         heapUsed g = drop (length (heapUsed g0 @ heap_samples us) - 120)
                        (heapUsed g0 @ heap_samples us) \<and>
         length (heapUsed g) \<le> 120 \<and>
         average (getStats g) =
           mean64 (drop (length (heapUsed g0 @ heap_samples us) - 120)
                     (heapUsed g0 @ heap_samples us)) \<and>
         (heapUsed g0 = [] \<and> length us \<le> 120 \<longrightarrow>
            heapUsed g = heap_samples us \<and> average (getStats g) = mean64 (heap_samples us))"
  using assms by (rule stats_after_captures)

lemma samples121: "heap_samples usages121 = 200 # replicate 120 100"
  by (simp add: heap_samples_def usages121_def usage_def bytesToMB_100 bytesToMB_200)

lemma sum64_hundreds:
  "(k + n) * 100 < 2 ^ 53 \<Longrightarrow>
     foldl (\<lambda>acc val. fadd acc val) (real (k * 100)) (replicate n 100) = real ((k + n) * 100)"
proof (induction n arbitrary: k)
  case 0
  then show ?case by simp
next
  case (Suc n)
  have small: "Suc k * 100 < 2 ^ 53" using Suc.prems by simp
  have sum: "real (k * 100) + 100 = real (Suc k * 100)" by simp
  have step: "fadd (real (k * 100)) 100 = real (Suc k * 100)"
    unfolding fadd_def sum by (rule round64_nat[OF small])
  have rest: "(Suc k + n) * 100 < 2 ^ 53" using Suc.prems by simp
  have "foldl (\<lambda>acc val. fadd acc val) (real (k * 100)) (replicate (Suc n) 100) =
          foldl (\<lambda>acc val. fadd acc val) (fadd (real (k * 100)) 100) (replicate n 100)"
    by (simp only: replicate_Suc foldl_Cons)
  also have "\<dots> = real ((Suc k + n) * 100)"
    unfolding step by (rule Suc.IH[OF rest])
  also have "\<dots> = real ((k + Suc n) * 100)" by simp
  finally show ?case .
qed

lemma mean64_window121: "mean64 (replicate 120 100) = 100"
proof -
  have "foldl (\<lambda>acc val. fadd acc val) (real (0 * 100)) (replicate 120 100) = real ((0 + 120) * 100)"
    by (rule sum64_hundreds) simp
  then have "foldl (\<lambda>acc val. fadd acc val) 0 (replicate 120 100) = 12000" by simp
  then show ?thesis by (simp add: mean64_def fdiv_def)
qed

lemma mean64_all121: "mean64 (200 # replicate 120 100) = 7095030404690089 / 2 ^ 46"
proof -
  have "foldl (\<lambda>acc val. fadd acc val) (real (2 * 100)) (replicate 120 100) = real ((2 + 120) * 100)"
    by (rule sum64_hundreds) simp
  then have "foldl (\<lambda>acc val. fadd acc val) 0 (200 # replicate 120 100) = 12200"
    by (simp add: fadd_def)
  then have "mean64 (200 # replicate 120 100) = round64 (12200 / 121)"
    by (simp add: mean64_def fdiv_def)
  also have "\<dots> = 7095030404690089 / 2 ^ 46"
    using round64_at[of "12200 / 121" "- 46"] by (simp add: round_half_even_def)
  finally show ?thesis .
qed

lemma stats121:
  "average (getStats (capture_all (graph_start (MemoryGraph_new (Some 120))) usages121)) = 100 \<and>
   max_stat (getStats (capture_all (graph_start (MemoryGraph_new (Some 120))) usages121)) = 200 \<and>
   length (heapUsed (capture_all (graph_start (MemoryGraph_new (Some 120))) usages121)) = 120"
proof -
  have ne: "usages121 \<noteq> []" by (simp add: usages121_def)
  note t = stats_after_captures[OF refl ne new_graph_fields(3) new_graph_fields(1), simplified new_graph_fields]
  have w: "drop (length ([] @ heap_samples usages121) - 120) ([] @ heap_samples usages121) = replicate 120 100"
    by (simp add: samples121)
  have mx: "Max (set (heap_samples usages121)) = 200" by (simp add: samples121)
  show ?thesis using t by (simp add: samples121 mean64_window121)
qed

lemma restarted_graph:
  "maxDataPoints restarted = 120" "heapUsed restarted = [200]" "\<not> graph_running restarted"
proof -
  note s = graph_start_fields[OF new_graph_fields(3)]
  have N: "0 < maxDataPoints (graph_start (MemoryGraph_new (Some 120)))"
    by (simp add: s new_graph_fields)
  have h: "heapUsed (graph_start (MemoryGraph_new (Some 120))) =
             drop (length ([]::real list) - maxDataPoints (graph_start (MemoryGraph_new (Some 120)))) []"
    by (simp add: s new_graph_fields)
  note f = capture_all_fields[OF N h, of "[usage 209715200]"]
  have hs: "heap_samples [usage 209715200] = [200]"
    by (simp add: heap_samples_def usage_def bytesToMB_200)
  have m: "maxDataPoints (capture_all (graph_start (MemoryGraph_new (Some 120))) [usage 209715200]) = 120"
    using f[THEN conjunct2, THEN conjunct1] unfolding s new_graph_fields .
  have "heapUsed (capture_all (graph_start (MemoryGraph_new (Some 120))) [usage 209715200]) =
          drop (length ([] @ [200::real]) - 120) ([] @ [200])"
    using f[THEN conjunct1] unfolding s new_graph_fields hs .
  then have u: "heapUsed (capture_all (graph_start (MemoryGraph_new (Some 120))) [usage 209715200]) = [200]"
    by simp
  show "maxDataPoints restarted = 120" unfolding restarted_def graph_stop_fields by (rule m)
  show "heapUsed restarted = [200]" unfolding restarted_def graph_stop_fields by (rule u)
  show "\<not> graph_running restarted" unfolding restarted_def by (rule graph_stop_fields)
qed

lemma mean64_pair: "mean64 [200, 100] = 150"
  by (simp add: mean64_def fadd_def fdiv_def)

theorem memory_stats_window_witness:
  "usages121 \<noteq> [] \<and> \<not> graph_running (MemoryGraph_new (Some 120)) \<and>
   maxDataPoints (MemoryGraph_new (Some 120)) = 120 \<and>
   length (heapUsed (MemoryGraph_new (Some 120))) \<le> 120 \<and>
   length usages121 = 121 \<and>
   max_stat (getStats (capture_all (graph_start (MemoryGraph_new (Some 120))) usages121)) = 200 \<and>
   heapUsed (capture_all (graph_start (MemoryGraph_new (Some 120))) usages121) = replicate 120 100 \<and>
   average (getStats (capture_all (graph_start (MemoryGraph_new (Some 120))) usages121)) = 100 \<and>
   \<not> graph_running restarted \<and> maxDataPoints restarted = 120 \<and> heapUsed restarted = [200] \<and>
   max_stat (getStats (capture_all (graph_start restarted) usages1)) = 100 \<and>
   heapUsed (capture_all (graph_start restarted) usages1) = [200, 100] \<and>
   average (getStats (capture_all (graph_start restarted) usages1)) = 150 \<and>
   heapUsed (MemoryGraph_new (Some 120)) = [] \<and> length usages1 \<le> 120 \<and>
   heapUsed (capture_all (graph_start (MemoryGraph_new (Some 120))) usages1) = heap_samples usages1 \<and>
   average (getStats (capture_all (graph_start (MemoryGraph_new (Some 120))) usages1)) =
     mean64 (heap_samples usages1)"
proof -
  have ne: "usages121 \<noteq> []" by (simp add: usages121_def)
  have old: "length (heapUsed (MemoryGraph_new (Some 120))) \<le> 120" by (simp add: new_graph_fields)
  note t = memory_stats_window [OF refl ne new_graph_fields(3) new_graph_fields(1) old]
  have w: "drop (length (heapUsed (MemoryGraph_new (Some 120)) @ heap_samples usages121) - 120)
             (heapUsed (MemoryGraph_new (Some 120)) @ heap_samples usages121) = replicate 120 100"
    by (simp add: new_graph_fields samples121)
  have mx: "Max (set (heap_samples usages121)) = 200" by (simp add: samples121)
  have 1: "max_stat (getStats (capture_all (graph_start (MemoryGraph_new (Some 120))) usages121)) = 200"
    using t mx by simp
  have 2: "heapUsed (capture_all (graph_start (MemoryGraph_new (Some 120))) usages121) = replicate 120 100"
    using t w by simp
  have 3: "average (getStats (capture_all (graph_start (MemoryGraph_new (Some 120))) usages121)) = 100"
    using t w mean64_window121 by simp
  have 4: "length usages121 = 121" by (simp add: usages121_def)
  have ne2: "usages1 \<noteq> []" by (simp add: usages1_def)
  have old2: "length (heapUsed restarted) \<le> 120" by (simp add: restarted_graph)
  note r = memory_stats_window [OF refl ne2 restarted_graph(3) restarted_graph(1) old2]
  have hs2: "heap_samples usages1 = [100]"
    by (simp add: heap_samples_def usages1_def usage_def bytesToMB_100)
  have w2: "drop (length (heapUsed restarted @ heap_samples usages1) - 120)
             (heapUsed restarted @ heap_samples usages1) = [200, 100]"
    by (simp add: restarted_graph hs2)
  have 5: "max_stat (getStats (capture_all (graph_start restarted) usages1)) = 100"
    using r by (simp add: hs2)
  have 6: "average (getStats (capture_all (graph_start restarted) usages1)) = 150"
    using r w2 mean64_pair by simp
  have 7: "heapUsed (capture_all (graph_start restarted) usages1) = [200, 100]"
    using r w2 by simp
  note n = memory_stats_window [OF refl ne2 new_graph_fields(3) new_graph_fields(1) old]
  have l1: "length usages1 \<le> 120" by (simp add: usages1_def)
  have 8: "heapUsed (capture_all (graph_start (MemoryGraph_new (Some 120))) usages1) = heap_samples usages1 \<and>
           average (getStats (capture_all (graph_start (MemoryGraph_new (Some 120))) usages1)) =
             mean64 (heap_samples usages1)"
    using n new_graph_fields(2) l1 by blast
  show ?thesis using ne old 1 2 3 4 5 6 7 8 l1 by (simp add: new_graph_fields restarted_graph)
qed

text \<open>
  Against claim C9 as stated: after one sample of 200 MB and 120 samples of 100 MB on a
  new graph the reported average is 100, the mean of the 120 samples kept. The mean of
  the 121 samples since the start is 12200 / 121, and computed in binary64 it is not 100
  either.
\<close>

theorem average_is_over_window_counterexample:
  "average (getStats (capture_all (graph_start (MemoryGraph_new (Some 120))) usages121))
     \<noteq> mean (heap_samples usages121) \<and>
   average (getStats (capture_all (graph_start (MemoryGraph_new (Some 120))) usages121))
     \<noteq> mean64 (heap_samples usages121)"
proof -
  have code: "average (getStats (capture_all (graph_start (MemoryGraph_new (Some 120))) usages121)) = 100"
    using stats121 by blast
  have spec: "mean (heap_samples usages121) = 12200 / 121"
    by (simp add: samples121 mean_def sum_list_replicate)
  have spec64: "mean64 (heap_samples usages121) = 7095030404690089 / 2 ^ 46"
    by (simp add: samples121 mean64_all121)
  show ?thesis unfolding code spec spec64 by simp
qed














section \<open>Properties of the database writer and of the pipeline\<close>

lemma run_query_issued:
  "run_query drv q w = (r, w1) \<Longrightarrow> issued w1 = issued w @ [q] \<and> r = fst (exec drv (db w) q)"
  by (auto simp: run_query_def split: prod.splits)

lemma Employee_insert_cases:
  assumes "Employee_insert drv e w = (r, w1)"
  shows "issued w1 = issued w @ [INSERT_ONE e] \<and>
         r = (case fst (exec drv (db w) (INSERT_ONE e)) of
                Inr ids \<Rightarrow> (case ids of [] \<Rightarrow> Inl (TypeError ''Cannot read properties of undefined'')
                                     | i # _ \<Rightarrow> Inr (Some i))
              | Inl error \<Rightarrow> if error_code error = Some ''23505'' then Inr None else Inl error)"
proof -
  obtain res w0 where q: "run_query drv (INSERT_ONE e) w = (res, w0)" by force
  note i = run_query_issued[OF q]
  show ?thesis
    using assms i unfolding Employee_insert_def q
    by (auto split: sum.splits list.splits if_splits)
qed

lemma insert_one_issued:
  "insert_one drv st e w = (st', w') \<Longrightarrow> issued w' = issued w @ [INSERT_ONE e]"
proof -
  assume a: "insert_one drv st e w = (st', w')"
  obtain r w1 where i: "Employee_insert drv e w = (r, w1)" by force
  have "w' = w1" using a unfolding insert_one_def i by (auto split: sum.splits option.splits)
  then show ?thesis using Employee_insert_cases[OF i] by simp
qed

lemma insert_one_counts:
  assumes "insert_one drv st e w = (st', w')"
  shows "totalProcessed st' = totalProcessed st \<and>
         ((successfulInserts st' = successfulInserts st + 1 \<and> failedInserts st' = failedInserts st) \<or>
          (successfulInserts st' = successfulInserts st \<and> failedInserts st' = failedInserts st + 1))"
proof -
  obtain r w1 where i: "Employee_insert drv e w = (r, w1)" by force
  show ?thesis using assms unfolding insert_one_def i
    by (auto split: sum.splits option.splits)
qed

lemma insert_one_duplicate:
  assumes "fst (exec drv (db w) (INSERT_ONE e)) = Inl error" and "error_code error = Some ''23505''"
  shows "fst (insert_one drv st e w) =
           st\<lparr>failedInserts := failedInserts st + 1,
              insert_errors := insert_errors st @
                [(e, ''Failed to insert record (likely duplicate email)'')]\<rparr>"
proof -
  obtain r w1 where i: "Employee_insert drv e w = (r, w1)" by force
  have "r = Inr None" using Employee_insert_cases[OF i] assms by simp
  then show ?thesis unfolding insert_one_def i by simp
qed

lemma insert_one_success:
  assumes "fst (exec drv (db w) (INSERT_ONE e)) = Inr (i # ids)"
  shows "fst (insert_one drv st e w) = st\<lparr>successfulInserts := successfulInserts st + 1\<rparr>"
proof -
  obtain r w1 where i: "Employee_insert drv e w = (r, w1)" by force
  have "r = Inr (Some i)" using Employee_insert_cases[OF i] assms by simp
  then show ?thesis unfolding insert_one_def i by simp
qed

lemma insert_one_other_error:
  assumes "fst (exec drv (db w) (INSERT_ONE e)) = Inl error" and "error_code error \<noteq> Some ''23505''"
  shows "fst (insert_one drv st e w) =
           st\<lparr>failedInserts := failedInserts st + 1,
              insert_errors := insert_errors st @ [(e, error_message error)]\<rparr>"
proof -
  obtain r w1 where i: "Employee_insert drv e w = (r, w1)" by force
  have "r = Inl error" using Employee_insert_cases[OF i] assms by simp
  then show ?thesis unfolding insert_one_def i by simp
qed

lemma fallback_Cons:
  assumes "insert_one drv st e w = (st1, w1)"
  shows "fallback drv st (e # es) w = fallback drv st1 es w1"
  using assms by simp

lemma fallback_props:
  "fallback drv st es w = (st', w') \<Longrightarrow>
     issued w' = issued w @ map INSERT_ONE es \<and>
     totalProcessed st' = totalProcessed st \<and>
     successfulInserts st' + failedInserts st' = successfulInserts st + failedInserts st + length es \<and>
     successfulInserts st \<le> successfulInserts st' \<and> failedInserts st \<le> failedInserts st'"
proof (induction es arbitrary: st w)
  case Nil
  then show ?case by simp
next
  case (Cons e es)
  obtain st1 w1 where s1: "insert_one drv st e w = (st1, w1)" by force
  have r: "fallback drv st1 es w1 = (st', w')"
    using Cons.prems unfolding fallback_Cons[OF s1] .
  note a = insert_one_issued[OF s1]
  note b = insert_one_counts[OF s1]
  note c = Cons.IH[OF r]
  have 1: "issued w' = issued w @ map INSERT_ONE (e # es)" using a c by simp
  have 2: "totalProcessed st' = totalProcessed st" using b c by simp
  have 3: "successfulInserts st' + failedInserts st' =
             successfulInserts st + failedInserts st + length (e # es)"
    using b c by auto
  have 4: "successfulInserts st \<le> successfulInserts st'" using b c by auto
  have 5: "failedInserts st \<le> failedInserts st'" using b c by auto
  show ?case using 1 2 3 4 5 by blast
qed

lemma fallback_append:
  "fallback drv st (es1 @ es2) w =
     (let (st1, w1) = fallback drv st es1 w in fallback drv st1 es2 w1)"
proof (induction es1 arbitrary: st w)
  case Nil
  then show ?case by simp
next
  case (Cons e es1)
  obtain st1 w1 where s1: "insert_one drv st e w = (st1, w1)" by force
  show ?case
    using Cons.IH[of st1 w1] by (simp add: s1)
qed

lemma rollback_props:
  assumes "rollback drv error w = (r, w1)"
  shows "(\<exists>e. r = Inl e) \<and> issued w1 = issued w @ [ROLLBACK]"
proof -
  obtain r0 w0 where q: "run_query drv ROLLBACK w = (r0, w0)" by force
  have iss: "issued w0 = issued w @ [ROLLBACK]" using run_query_issued[OF q] by simp
  show ?thesis
  proof (cases r0)
    case (Inl e')
    then show ?thesis using assms iss unfolding rollback_def q by auto
  next
    case (Inr ids)
    then show ?thesis using assms iss unfolding rollback_def q by auto
  qed
qed

lemma batchInsert_failed:
  assumes "Employee_batchInsert drv es w = (Inl error, w1)"
  shows "es \<noteq> [] \<and>
         (case fst (connect drv (db w)) of
            Some e \<Rightarrow> issued w1 = issued w
          | None \<Rightarrow> (\<exists>qs. issued w1 = issued w @ BEGIN # qs @ [ROLLBACK]))"
proof (cases "es = []")
  case True
  then show ?thesis using assms by (simp add: Employee_batchInsert_def)
next
  case ne: False
  obtain c d where c: "connect drv (db w) = (c, d)" by force
  show ?thesis
  proof (cases c)
    case (Some e)
    then show ?thesis using assms ne c by (auto simp: Employee_batchInsert_def)
  next
    case None
    let ?w0 = "w\<lparr>db := d\<rparr>"
    obtain r1 x1 where q1: "run_query drv BEGIN ?w0 = (r1, x1)" by force
    have i1: "issued x1 = issued w @ [BEGIN]" using run_query_issued[OF q1] by simp
    have unf: "Employee_batchInsert drv es w =
       (case r1 of
          Inl error \<Rightarrow> rollback drv error x1
        | Inr _ \<Rightarrow>
            (let (result, w2) = run_query drv (INSERT_BATCH es) x1
             in case result of
                  Inl error \<Rightarrow> rollback drv error w2
                | Inr ids \<Rightarrow>
                    (let (r3, w3) = run_query drv COMMIT w2
                     in case r3 of
                          Inl error \<Rightarrow> rollback drv error w3
                        | Inr _ \<Rightarrow> (Inr ids, w3))))"
      using ne c None q1 by (simp add: Employee_batchInsert_def)
    have "\<exists>qs. issued w1 = issued w @ BEGIN # qs @ [ROLLBACK]"
    proof (cases r1)
      case (Inl e1)
      then have "rollback drv e1 x1 = (Inl error, w1)" using assms unf by simp
      then have "issued w1 = issued x1 @ [ROLLBACK]" using rollback_props by blast
      then have "issued w1 = issued w @ BEGIN # [] @ [ROLLBACK]" using i1 by simp
      then show ?thesis by blast
    next
      case (Inr ok1)
      obtain r2 x2 where q2: "run_query drv (INSERT_BATCH es) x1 = (r2, x2)" by force
      have i2: "issued x2 = issued w @ [BEGIN, INSERT_BATCH es]"
        using run_query_issued[OF q2] i1 by simp
      show ?thesis
      proof (cases r2)
        case (Inl e2)
        then have "rollback drv e2 x2 = (Inl error, w1)" using assms unf Inr q2 by simp
        then have "issued w1 = issued x2 @ [ROLLBACK]" using rollback_props by blast
        then have "issued w1 = issued w @ BEGIN # [INSERT_BATCH es] @ [ROLLBACK]" using i2 by simp
        then show ?thesis by blast
      next
        case ids: (Inr ids)
        obtain r3 x3 where q3: "run_query drv COMMIT x2 = (r3, x3)" by force
        have i3: "issued x3 = issued w @ [BEGIN, INSERT_BATCH es, COMMIT]"
          using run_query_issued[OF q3] i2 by simp
        show ?thesis
        proof (cases r3)
          case (Inl e3)
          then have "rollback drv e3 x3 = (Inl error, w1)" using assms unf Inr q2 ids q3 by simp
          then have "issued w1 = issued x3 @ [ROLLBACK]" using rollback_props by blast
          then have "issued w1 = issued w @ BEGIN # [INSERT_BATCH es, COMMIT] @ [ROLLBACK]"
            using i3 by simp
          then show ?thesis by blast
        next
          case (Inr ok3)
          then show ?thesis using assms unf \<open>r1 = Inr ok1\<close> q2 ids q3 by simp
        qed
      qed
    qed
    then show ?thesis using ne c None by simp
  qed
qed

lemma rollback_fails: "rollback drv e x \<noteq> (Inr ids, w1)"
  using rollback_props by fastforce

lemma batchInsert_succeeded:
  assumes "Employee_batchInsert drv es w = (Inr ids, w1)" and "one_id_per_row drv"
  shows "length ids = length es"
proof (cases "es = []")
  case True
  then show ?thesis using assms by (simp add: Employee_batchInsert_def)
next
  case ne: False
  obtain c d where c: "connect drv (db w) = (c, d)" by force
  show ?thesis
  proof (cases c)
    case (Some e)
    then show ?thesis using assms ne c by (auto simp: Employee_batchInsert_def)
  next
    case None
    let ?w0 = "w\<lparr>db := d\<rparr>"
    obtain r1 x1 where q1: "run_query drv BEGIN ?w0 = (r1, x1)" by force
    have unf: "Employee_batchInsert drv es w =
       (case r1 of
          Inl error \<Rightarrow> rollback drv error x1
        | Inr _ \<Rightarrow>
            (let (result, w2) = run_query drv (INSERT_BATCH es) x1
             in case result of
                  Inl error \<Rightarrow> rollback drv error w2
                | Inr ids \<Rightarrow>
                    (let (r3, w3) = run_query drv COMMIT w2
                     in case r3 of
                          Inl error \<Rightarrow> rollback drv error w3
                        | Inr _ \<Rightarrow> (Inr ids, w3))))"
      using ne c None q1 by (simp add: Employee_batchInsert_def)
    show ?thesis
    proof (cases r1)
      case (Inl e1)
      then show ?thesis using assms(1) unf by (simp add: rollback_fails)
    next
      case ok1: (Inr ok1)
      obtain r2 x2 where q2: "run_query drv (INSERT_BATCH es) x1 = (r2, x2)" by force
      show ?thesis
      proof (cases r2)
        case (Inl e2)
        then show ?thesis using assms(1) unf ok1 q2 by (simp add: rollback_fails)
      next
        case ids2: (Inr ids2)
        obtain r3 x3 where q3: "run_query drv COMMIT x2 = (r3, x3)" by force
        have same: "ids2 = ids"
        proof (cases r3)
          case (Inl e3)
          then show ?thesis using assms(1) unf ok1 q2 ids2 q3 by (simp add: rollback_fails)
        next
          case (Inr ok3)
          then show ?thesis using assms(1) unf ok1 q2 ids2 q3 by simp
        qed
        obtain d2 where ex: "exec drv (db x1) (INSERT_BATCH es) = (Inr ids, d2)"
          using q2 ids2 same by (auto simp: run_query_def split: prod.splits)
        show ?thesis using assms(2) ex unfolding one_id_per_row_def by blast
      qed
    qed
  qed
qed

lemma writer_write_failed:
  assumes vs: "validEmployees = map data (filter valid records)" and ne: "validEmployees \<noteq> []"
    and fail: "Employee_batchInsert drv validEmployees w = (Inl dbError, w1)"
  shows "writer_write drv st (Batch records) w =
           fallback drv (st\<lparr>totalProcessed := totalProcessed st + length records\<rparr>) validEmployees w1"
proof -
  have "records \<noteq> []" using vs ne by auto
  then show ?thesis
    using ne fail unfolding vs by (simp add: writer_write_def Let_def)
qed

lemma writer_write_empty:
  "map data (filter valid records) = [] \<Longrightarrow>
     successfulInserts (fst (writer_write drv st (Batch records) w)) = successfulInserts st \<and>
     failedInserts (fst (writer_write drv st (Batch records) w)) = failedInserts st"
  by (simp add: writer_write_def Let_def)

lemma writer_write_counts:
  assumes rows: "one_id_per_row drv" and run: "writer_write drv st (Batch records) w = (st', w')"
  shows "successfulInserts st' + failedInserts st' =
           successfulInserts st + failedInserts st + length (filter valid records) \<and>
         successfulInserts st \<le> successfulInserts st' \<and> failedInserts st \<le> failedInserts st'"
proof (cases "map data (filter valid records) = []")
  case True
  then have "filter valid records = []" by simp
  then show ?thesis using writer_write_empty[OF True, of drv st w] run by simp
next
  case ne: False
  let ?vs = "map data (filter valid records)"
  let ?st1 = "st\<lparr>totalProcessed := totalProcessed st + length records\<rparr>"
  have rne: "records \<noteq> []" using ne by auto
  obtain r w1 where b: "Employee_batchInsert drv ?vs w = (r, w1)" by force
  show ?thesis
  proof (cases r)
    case (Inl dbError)
    have "fallback drv ?st1 ?vs w1 = (st', w')"
      using writer_write_failed[OF refl ne b[unfolded Inl]] run by simp
    from fallback_props[OF this] show ?thesis by simp
  next
    case (Inr insertedIds)
    have len: "length insertedIds = length ?vs"
      using batchInsert_succeeded[OF b[unfolded Inr] rows] .
    have "st' = ?st1\<lparr>successfulInserts := successfulInserts ?st1 + length insertedIds\<rparr>"
      using run rne ne b Inr by (simp add: writer_write_def Let_def)
    then show ?thesis using len by simp
  qed
qed

lemma write_all_Cons:
  assumes "writer_write drv st c w = (st1, w1)"
  shows "write_all drv st (c # cs) w = write_all drv st1 cs w1"
  using assms by simp

lemma write_all_counts:
  assumes rows: "one_id_per_row drv"
  shows "write_all drv st (map Batch bs) w = (st', w') \<Longrightarrow>
     successfulInserts st' + failedInserts st' =
       successfulInserts st + failedInserts st + length (filter valid (concat bs)) \<and>
     successfulInserts st \<le> successfulInserts st' \<and> failedInserts st \<le> failedInserts st'"
proof (induction bs arbitrary: st w)
  case Nil
  then show ?case by simp
next
  case (Cons b bs)
  obtain st1 w1 where s1: "writer_write drv st (Batch b) w = (st1, w1)" by force
  have r: "write_all drv st1 (map Batch bs) w1 = (st', w')"
    using Cons.prems write_all_Cons[OF s1] by simp
  note a = writer_write_counts[OF rows s1]
  note c = Cons.IH[OF r]
  have 1: "successfulInserts st' + failedInserts st' =
       successfulInserts st + failedInserts st + length (filter valid (concat (b # bs)))"
    using a c by simp
  have 2: "successfulInserts st \<le> successfulInserts st'" using a c by linarith
  have 3: "failedInserts st \<le> failedInserts st'" using a c by linarith
  show ?case using 1 2 3 by blast
qed

lemma write_all_new:
  assumes "one_id_per_row drv" and "write_all drv DatabaseWriter_new (map Batch bs) w = (st', w')"
  shows "successfulInserts st' + failedInserts st' = length (filter valid (concat bs))"
  using write_all_counts[OF assms] by (simp add: DatabaseWriter_new_def)

lemma valid_admitted: "filter valid (filter (admitted t) cs) = filter valid cs"
  by (induction cs) (auto simp: admitted_def)

lemma batch_run_concat:
  "concat (snd (batch_run (BatchTransformer_new opts) cs)) =
     filter (admitted (BatchTransformer_new opts)) cs"
proof -
  let ?t = "BatchTransformer_new opts"
  obtain t1 full where s1: "batch_feed ?t cs = (t1, full)" by force
  obtain t2 rest where s2: "batch_flush t1 = (t2, rest)" by force
  have "concat full @ currentBatch t1 = filter (admitted ?t) cs"
    using batch_feed_concat[OF s1] by (simp add: new_batcher_empty)
  moreover have "concat rest = currentBatch t1"
    using batch_flush_cases[OF s2] by auto
  ultimately show ?thesis unfolding batch_run_eq[OF s1 s2] by simp
qed

lemma prefix_concat: "prefix xs ys \<Longrightarrow> prefix (concat xs) (concat ys)"
  by (auto simp: prefix_def)

text \<open>
  Claim C2. Assume that a successful insert of several rows returns one key per row.
  At any point of a run (the transformer has consumed \<open>rows\<close>, the batcher a prefix of
  what the transformer pushed, the writer a prefix of what the batcher emitted) the
  number of successful inserts is at most the valid counter, and the writer has
  accounted, as successful or failed, for exactly the valid records delivered to it.
  After a full run of the pipeline, successful plus failed inserts equal the valid
  counter. This holds for every setting of the options, validity filtering included.
\<close>
theorem stored_at_most_valid:
  assumes rows: "one_id_per_row drv"
    and tr: "employee_run rt EmployeeTransformer_new rows = (tstats, records)"
    and p1: "prefix records' records"
    and p2: "prefix batches' (snd (batch_run (BatchTransformer_new opts) records'))"
    and wr: "write_all drv DatabaseWriter_new (map Batch batches') w = (wstats', w')"
    and full: "pipeline rt opts drv rows w = (tstats_end, wstats, w_end)"
  shows "successfulInserts wstats' \<le> stats_valid tstats \<and>
         successfulInserts wstats' + failedInserts wstats' = length (filter valid (concat batches')) \<and>
         tstats_end = tstats \<and>
         successfulInserts wstats \<le> stats_valid tstats \<and>
         successfulInserts wstats + failedInserts wstats = stats_valid tstats"
proof -
  have valid: "stats_valid tstats = length (filter valid records)"
    using employee_run_new[OF tr] by simp
  have sum': "successfulInserts wstats' + failedInserts wstats' = length (filter valid (concat batches'))"
    by (rule write_all_new[OF rows wr])
  have pc: "prefix (concat batches') (filter (admitted (BatchTransformer_new opts)) records')"
    using prefix_concat[OF p2] by (simp add: batch_run_concat)
  have "prefix (filter valid (concat batches')) (filter valid records')"
    using filter_mono_prefix[OF pc, of valid] unfolding valid_admitted .
  moreover have "prefix (filter valid records') (filter valid records)"
    by (rule filter_mono_prefix[OF p1])
  ultimately have "length (filter valid (concat batches')) \<le> length (filter valid records)"
    using prefix_length_le order_trans by blast
  then have le': "successfulInserts wstats' \<le> stats_valid tstats"
    using sum' valid by linarith
  obtain t batches where br: "batch_run (BatchTransformer_new opts) records = (t, batches)" by force
  obtain ws wx where wa: "write_all drv DatabaseWriter_new (map Batch batches) w = (ws, wx)" by force
  have pe: "pipeline rt opts drv rows w = (tstats, ws, wx)"
    by (simp add: pipeline_def tr br wa)
  then have e: "tstats_end = tstats" "wstats = ws" using full by simp_all
  have cc: "concat batches = filter (admitted (BatchTransformer_new opts)) records"
    using batch_run_concat[of opts records] br by simp
  have "successfulInserts ws + failedInserts ws = length (filter valid (concat batches))"
    by (rule write_all_new[OF rows wa])
  then have sum: "successfulInserts wstats + failedInserts wstats = stats_valid tstats"
    unfolding e cc valid_admitted valid .
  then have le: "successfulInserts wstats \<le> stats_valid tstats" by linarith
  show ?thesis using le' sum' e(1) le sum by blast
qed

text \<open>
  Claim C1. Let the batch insert of the valid employees of a batch fail. If a client
  had been obtained, the statements sent for the batch start with \<open>BEGIN\<close> and end
  with \<open>ROLLBACK\<close>; if the pool gave no client, no statement was sent and there is no
  transaction to roll back. In both cases the writer then runs the loop of single
  inserts on the same valid employees: after the rollback exactly one \<open>INSERT_ONE\<close> is
  sent for each of them, in order, whatever the outcome of the earlier ones, and each adds
  one to exactly one of the two counters. For one insert: a unique violation (code
  23505) adds one to \<open>failedInserts\<close> and records the reason
  \<open>Failed to insert record (likely duplicate email)\<close>; a returned row adds one to
  \<open>successfulInserts\<close>; any other error adds one to \<open>failedInserts\<close> with its message.
  The loop on a list goes through the part before a record, then that record, then the
  part after it.
\<close>
theorem fallback_after_failed_batch:
  assumes vs: "validEmployees = map data (filter valid records)" and ne: "validEmployees \<noteq> []"
    and fail: "Employee_batchInsert drv validEmployees w = (Inl dbError, w1)"
    and run: "writer_write drv st (Batch records) w = (st', w')"
  shows "(case fst (connect drv (db w)) of
            Some e \<Rightarrow> issued w1 = issued w
          | None \<Rightarrow> (\<exists>qs. issued w1 = issued w @ BEGIN # qs @ [ROLLBACK])) \<and>
         (st', w') = fallback drv (st\<lparr>totalProcessed := totalProcessed st + length records\<rparr>)
                       validEmployees w1 \<and>
         issued w' = issued w1 @ map INSERT_ONE validEmployees \<and>
         successfulInserts st' + failedInserts st' =
           successfulInserts st + failedInserts st + length validEmployees \<and>
         (\<forall>s e x error. fst (exec drv (db x) (INSERT_ONE e)) = Inl error \<and>
              error_code error = Some ''23505'' \<longrightarrow>
            fst (insert_one drv s e x) =
              s\<lparr>failedInserts := failedInserts s + 1,
                insert_errors := insert_errors s @
                  [(e, ''Failed to insert record (likely duplicate email)'')]\<rparr>) \<and>
         (\<forall>s e x i ids. fst (exec drv (db x) (INSERT_ONE e)) = Inr (i # ids) \<longrightarrow>
            fst (insert_one drv s e x) = s\<lparr>successfulInserts := successfulInserts s + 1\<rparr>) \<and>
         (\<forall>s e x error. fst (exec drv (db x) (INSERT_ONE e)) = Inl error \<and>
              error_code error \<noteq> Some ''23505'' \<longrightarrow>
            fst (insert_one drv s e x) =
              s\<lparr>failedInserts := failedInserts s + 1,
                insert_errors := insert_errors s @ [(e, error_message error)]\<rparr>) \<and>
         (\<forall>s x before e after.
            fallback drv s (before @ e # after) x =
              (let (s1, x1) = fallback drv s before x;
                   (s2, x2) = insert_one drv s1 e x1
               in fallback drv s2 after x2))"
proof -
  let ?st1 = "st\<lparr>totalProcessed := totalProcessed st + length records\<rparr>"
  have 1: "case fst (connect drv (db w)) of
            Some e \<Rightarrow> issued w1 = issued w
          | None \<Rightarrow> (\<exists>qs. issued w1 = issued w @ BEGIN # qs @ [ROLLBACK])"
    using batchInsert_failed[OF fail] by simp
  have 2: "(st', w') = fallback drv ?st1 validEmployees w1"
    using writer_write_failed[OF vs ne fail, of st] run by simp
  note p = fallback_props[OF 2[symmetric]]
  have 3: "issued w' = issued w1 @ map INSERT_ONE validEmployees" using p by simp
  have 4: "successfulInserts st' + failedInserts st' =
           successfulInserts st + failedInserts st + length validEmployees" using p by simp
  have 8: "\<forall>s x before e after.
            fallback drv s (before @ e # after) x =
              (let (s1, x1) = fallback drv s before x;
                   (s2, x2) = insert_one drv s1 e x1
               in fallback drv s2 after x2)"
    by (simp add: fallback_append split: prod.splits)
  show ?thesis
    using 1 2 3 4 8 insert_one_duplicate[of drv] insert_one_success[of drv]
      insert_one_other_error[of drv]
    by blast
qed

lemma example_emails:
  "row_ok ''email'' = Some ''a@b.com''" "row_ok2 ''email'' = Some ''c@d.org''"
  by (simp_all add: row_ok_def row_ok2_def)

lemma table_driver_rows: "one_id_per_row table_driver"
  by (auto simp: one_id_per_row_def table_driver_def table_exec_def split: if_splits)

lemma batch3_valid: "map data (filter valid batch3) = [row_ok, row_ok2]"
  by (simp add: batch3_def rec_ok_def rec_ok2_def rec_bad_def)

lemma batch3_failed:
  "Employee_batchInsert table_driver [row_ok, row_ok2] world0 =
     (Inl (DbError ''23505'' ''duplicate key value violates unique constraint''),
      \<lparr>db = [''a@b.com''], issued = [BEGIN, INSERT_BATCH [row_ok, row_ok2], ROLLBACK]\<rparr>)"
  by (simp add: Employee_batchInsert_def rollback_def run_query_def table_driver_def
        table_exec_def emails_of_def example_emails world0_def)

lemma pair_fallback:
  "fallback table_driver
     \<lparr>totalProcessed = n, successfulInserts = 0, failedInserts = 0, insert_errors = []\<rparr>
     [row_ok, row_ok2]
     \<lparr>db = [''a@b.com''], issued = [BEGIN, INSERT_BATCH [row_ok, row_ok2], ROLLBACK]\<rparr> =
   (\<lparr>totalProcessed = n, successfulInserts = 1, failedInserts = 1,
     insert_errors = [(row_ok, ''Failed to insert record (likely duplicate email)'')]\<rparr>,
    \<lparr>db = [''a@b.com'', ''c@d.org''],
     issued = [BEGIN, INSERT_BATCH [row_ok, row_ok2], ROLLBACK, INSERT_ONE row_ok, INSERT_ONE row_ok2]\<rparr>)"
  by (simp add: insert_one_def Employee_insert_def run_query_def table_driver_def
        table_exec_def example_emails)

lemma writer_new_total:
  "DatabaseWriter_new\<lparr>totalProcessed := totalProcessed DatabaseWriter_new + n\<rparr> =
     \<lparr>totalProcessed = n, successfulInserts = 0, failedInserts = 0, insert_errors = []\<rparr>"
  by (simp add: DatabaseWriter_new_def)

lemma batch3_written:
  "writer_write table_driver DatabaseWriter_new (Batch batch3) world0 =
   (\<lparr>totalProcessed = 3, successfulInserts = 1, failedInserts = 1,
     insert_errors = [(row_ok, ''Failed to insert record (likely duplicate email)'')]\<rparr>,
    \<lparr>db = [''a@b.com'', ''c@d.org''],
     issued = [BEGIN, INSERT_BATCH [row_ok, row_ok2], ROLLBACK, INSERT_ONE row_ok, INSERT_ONE row_ok2]\<rparr>)"
proof -
  have ne: "[row_ok, row_ok2] \<noteq> []" by simp
  have len: "length batch3 = 3" by (simp add: batch3_def)
  show ?thesis
    unfolding writer_write_failed[OF batch3_valid[symmetric] ne batch3_failed, of DatabaseWriter_new]
      writer_new_total pair_fallback len ..
qed

theorem fallback_after_failed_batch_witness:
  "map data (filter valid batch3) = [row_ok, row_ok2] \<and>
   fst (Employee_batchInsert table_driver [row_ok, row_ok2] world0) =
     Inl (DbError ''23505'' ''duplicate key value violates unique constraint'') \<and>
   issued (snd (writer_write table_driver DatabaseWriter_new (Batch batch3) world0)) =
     [BEGIN, INSERT_BATCH [row_ok, row_ok2], ROLLBACK, INSERT_ONE row_ok, INSERT_ONE row_ok2] \<and>
   successfulInserts (fst (writer_write table_driver DatabaseWriter_new (Batch batch3) world0)) = 1 \<and>
   failedInserts (fst (writer_write table_driver DatabaseWriter_new (Batch batch3) world0)) = 1 \<and>
   insert_errors (fst (writer_write table_driver DatabaseWriter_new (Batch batch3) world0)) =
     [(row_ok, ''Failed to insert record (likely duplicate email)'')]"
proof -
  have ne: "[row_ok, row_ok2] \<noteq> []" by simp
  note t = fallback_after_failed_batch [OF batch3_valid[symmetric] ne batch3_failed batch3_written]
  have attempted:
    "issued \<lparr>db = [''a@b.com'', ''c@d.org''],
       issued = [BEGIN, INSERT_BATCH [row_ok, row_ok2], ROLLBACK, INSERT_ONE row_ok, INSERT_ONE row_ok2]\<rparr> =
     issued \<lparr>db = [''a@b.com''], issued = [BEGIN, INSERT_BATCH [row_ok, row_ok2], ROLLBACK]\<rparr> @
       map INSERT_ONE [row_ok, row_ok2]"
    by (rule t[THEN conjunct2, THEN conjunct2, THEN conjunct1])
  show ?thesis
    using attempted by (simp add: batch3_valid batch3_failed batch3_written)
qed

lemma rows3_transformed:
  "employee_run no_runtime EmployeeTransformer_new [row_ok, row_lee, row_ok2] =
     (\<lparr>processed = 3, stats_valid = 2, stats_invalid = 1,
       stats_errors = [(row_lee, [''First name is required''])]\<rparr>, batch3)"
  by (simp add: employee_transform_def EmployeeTransformer_new_def
        validate_row_ok validate_row_lee validate_row_ok2
        batch3_def rec_ok_def rec_ok2_def rec_bad_def)

lemma batch3_batched:
  "batch_run (BatchTransformer_new opts2) batch3 =
     (\<lparr>batchSize = 2, currentBatch = [], validOnly = True\<rparr>, [[rec_ok, rec_ok2]])"
  by (simp add: batch_run_def batch_flush_def batch_transform_def new2 batch3_def
        rec_ok_def rec_ok2_def rec_bad_def)

lemma pair_valid: "map data (filter valid [rec_ok, rec_ok2]) = [row_ok, row_ok2]"
  by (simp add: rec_ok_def rec_ok2_def)

lemma pair_written:
  "write_all table_driver DatabaseWriter_new (map Batch [[rec_ok, rec_ok2]]) world0 =
   (\<lparr>totalProcessed = 2, successfulInserts = 1, failedInserts = 1,
     insert_errors = [(row_ok, ''Failed to insert record (likely duplicate email)'')]\<rparr>,
    \<lparr>db = [''a@b.com'', ''c@d.org''],
     issued = [BEGIN, INSERT_BATCH [row_ok, row_ok2], ROLLBACK, INSERT_ONE row_ok, INSERT_ONE row_ok2]\<rparr>)"
proof -
  have ne: "[row_ok, row_ok2] \<noteq> []" by simp
  have len: "length [rec_ok, rec_ok2] = 2" by simp
  have one: "writer_write table_driver DatabaseWriter_new (Batch [rec_ok, rec_ok2]) world0 =
   (\<lparr>totalProcessed = 2, successfulInserts = 1, failedInserts = 1,
     insert_errors = [(row_ok, ''Failed to insert record (likely duplicate email)'')]\<rparr>,
    \<lparr>db = [''a@b.com'', ''c@d.org''],
     issued = [BEGIN, INSERT_BATCH [row_ok, row_ok2], ROLLBACK, INSERT_ONE row_ok, INSERT_ONE row_ok2]\<rparr>)"
    unfolding writer_write_failed[OF pair_valid[symmetric] ne batch3_failed, of DatabaseWriter_new]
      writer_new_total pair_fallback len ..
  show ?thesis by (simp add: one)
qed

lemma pipeline3:
  "pipeline no_runtime opts2 table_driver [row_ok, row_lee, row_ok2] world0 =
   (\<lparr>processed = 3, stats_valid = 2, stats_invalid = 1,
       stats_errors = [(row_lee, [''First name is required''])]\<rparr>,
    \<lparr>totalProcessed = 2, successfulInserts = 1, failedInserts = 1,
     insert_errors = [(row_ok, ''Failed to insert record (likely duplicate email)'')]\<rparr>,
    \<lparr>db = [''a@b.com'', ''c@d.org''],
     issued = [BEGIN, INSERT_BATCH [row_ok, row_ok2], ROLLBACK, INSERT_ONE row_ok, INSERT_ONE row_ok2]\<rparr>)"
  by (simp only: pipeline_def rows3_transformed batch3_batched pair_written Let_def prod.case)

theorem stored_at_most_valid_witness:
  "one_id_per_row table_driver \<and>
   stats_valid (fst (pipeline no_runtime opts2 table_driver [row_ok, row_lee, row_ok2] world0)) = 2 \<and>
   successfulInserts (fst (snd (pipeline no_runtime opts2 table_driver [row_ok, row_lee, row_ok2] world0))) = 1 \<and>
   failedInserts (fst (snd (pipeline no_runtime opts2 table_driver [row_ok, row_lee, row_ok2] world0))) = 1"
proof -
  have p1: "prefix batch3 batch3" by simp
  have p2: "prefix [[rec_ok, rec_ok2]] (snd (batch_run (BatchTransformer_new opts2) batch3))"
    by (simp add: batch3_batched)
  note t = stored_at_most_valid [OF table_driver_rows rows3_transformed p1 p2 pair_written pipeline3]
  have bound: "successfulInserts
      \<lparr>totalProcessed = 2, successfulInserts = 1, failedInserts = 1,
        insert_errors = [(row_ok, ''Failed to insert record (likely duplicate email)'')]\<rparr>
      \<le> stats_valid \<lparr>processed = 3, stats_valid = 2, stats_invalid = 1,
            stats_errors = [(row_lee, [''First name is required''])]\<rparr>"
    by (rule t[THEN conjunct1])
  show ?thesis
    using bound by (simp add: table_driver_rows pipeline3)
qed
end
